theory Spec2Isabelle
  imports Main "HOL-Library.AList" "HOL-Library.Sublist" "HOL-Library.Multiset"
begin

section \<open>JavaScript values used by the scripts\<close>

text \<open>
  A JavaScript \<open>Map\<close> is modelled as an association list in insertion order:
  \<open>map_of m k\<close> is \<open>m.get(k)\<close> (\<open>None\<close> for \<open>undefined\<close>),
  \<open>Map_has m k\<close> is \<open>m.has(k)\<close> and \<open>Map_set m k v\<close> is \<open>m.set(k, v)\<close>, which
  overwrites the value of a key that is present and appends a new key at the end.
  A string is truthy when it is not empty.
\<close>

type_synonym ('k, 'v) js_map = "('k \<times> 'v) list"

definition Map_has :: "('k, 'v) js_map \<Rightarrow> 'k \<Rightarrow> bool" where
  "Map_has m k = (map_of m k \<noteq> None)"

definition Map_set :: "('k, 'v) js_map \<Rightarrow> 'k \<Rightarrow> 'v \<Rightarrow> ('k, 'v) js_map" where
  "Map_set m k v = AList.update k v m"

definition truthy :: "string \<Rightarrow> bool" where
  "truthy s = (s \<noteq> [])"

text \<open>
  A JavaScript \<open>Set\<close> of strings as a list without repetition: \<open>Set_add\<close> is
  \<open>set.add(x)\<close>, membership in the list is \<open>set.has(x)\<close>.
\<close>

definition Set_add :: "string list \<Rightarrow> string \<Rightarrow> string list" where
  "Set_add s x = (if x \<in> set s then s else s @ [x])"

text \<open>
  The exceptions the scripts can meet: the \<open>DepGraphCycleError\<close> of the
  dependency-graph package with the path of the cycle, the plain \<open>Error\<close> that the
  package throws for a node that does not exist, and the TypeError of reading a
  property of \<open>undefined\<close>. \<open>message\<close> is \<open>err.message\<close>.
\<close>

datatype js_error = DepGraphCycleError "string list" | Error string | TypeError

fun join :: "string \<Rightarrow> string list \<Rightarrow> string" where
  "join sep [] = []"
| "join sep [x] = x"
| "join sep (x # y # ys) = x @ sep @ join sep (y # ys)"

fun message :: "js_error \<Rightarrow> string" where
  "message (DepGraphCycleError cyclePath) = ''Dependency Cycle Found: '' @ join '' -> '' cyclePath"
| "message (Error msg) = msg"
| "message TypeError = ''Cannot read properties of undefined''"

text \<open>
  \<open>for (const x of xs) body\<close> where the body may throw: the state is threaded
  through the iterations and the first exception ends the loop.
\<close>

fun for_of :: "'a list \<Rightarrow> ('a \<Rightarrow> 's \<Rightarrow> js_error + 's) \<Rightarrow> 's \<Rightarrow> js_error + 's" where
  "for_of [] body s = Inr s"
| "for_of (x # xs) body s =
     (case body x s of Inl err \<Rightarrow> Inl err | Inr s' \<Rightarrow> for_of xs body s')"

lemma for_of_cong [fundef_cong]:
  assumes "xs = ys" "s = t" "\<And>x u. x \<in> set ys \<Longrightarrow> f x u = g x u"
  shows "for_of xs f s = for_of ys g t"
  using assms
proof (induction ys arbitrary: xs s t)
  case Nil
  then show ?case by simp
next
  case (Cons y ys)
  then show ?case by (cases "g y t") auto
qed

section \<open>Entities and the entity index\<close>

text \<open>
  An entity is a parsed JSON object with its \<open>_filePath\<close>. The fields the scripts
  read hold a string or an array of strings; a field that is absent reads as
  \<open>undefined\<close> (\<open>None\<close>). The entity index holds one \<open>Map\<close> from id to entity for
  each of the six entity types; \<open>index_get\<close> is \<open>entityIndex[entityType]\<close>.
\<close>

datatype field_value = Str string | Arr "string list"

record Entity =
  props :: "(string \<times> field_value) list"
  filePath :: string

record EntityIndex =
  categories :: "(string, Entity) js_map"
  properties :: "(string, Entity) js_map"
  subobjects :: "(string, Entity) js_map"
  templates :: "(string, Entity) js_map"
  modules :: "(string, Entity) js_map"
  bundles :: "(string, Entity) js_map"

definition field :: "Entity \<Rightarrow> string \<Rightarrow> field_value option" where
  "field entity fieldName = map_of (props entity) fieldName"

definition index_get :: "EntityIndex \<Rightarrow> string \<Rightarrow> (string, Entity) js_map option" where
  "index_get entityIndex entityType =
     (if entityType = ''categories'' then Some (categories entityIndex)
      else if entityType = ''properties'' then Some (properties entityIndex)
      else if entityType = ''subobjects'' then Some (subobjects entityIndex)
      else if entityType = ''templates'' then Some (templates entityIndex)
      else if entityType = ''modules'' then Some (modules entityIndex)
      else if entityType = ''bundles'' then Some (bundles entityIndex)
      else None)"

text \<open>
  The sequence that \<open>for (const x of (value || []))\<close> visits: nothing for
  \<open>undefined\<close> and for the empty string, the elements of an array, and the characters
  of a non-empty string.
\<close>

definition or_empty :: "field_value option \<Rightarrow> string list" where
  "or_empty v = (case v of None \<Rightarrow> [] | Some (Arr xs) \<Rightarrow> xs | Some (Str s) \<Rightarrow> map (\<lambda>c. [c]) s)"

section \<open>The dependency-graph package\<close>

text \<open>
  The scripts import \<open>DepGraph\<close> from the npm package dependency-graph, which is not
  part of the repository. The graph keeps its node names and, for every node, the
  list of its outgoing edges (its direct dependencies) and of its incoming edges;
  \<open>addNode\<close> creates both lists, so the three objects have the same keys. The model
  follows the package: \<open>addNode\<close>, \<open>addDependency\<close>, the depth-first search that
  \<open>dependenciesOf\<close> and \<open>overallOrder\<close> share, and the error it throws on a cycle.
  The node names are kept in insertion order (\<open>Object.keys\<close> would list names that
  are array indices first); the results below do not depend on that order.
\<close>

record DepGraph =
  nodes :: "string list"
  outgoingEdges :: "(string, string list) js_map"
  incomingEdges :: "(string, string list) js_map"

definition new_DepGraph :: DepGraph where
  "new_DepGraph = \<lparr>nodes = [], outgoingEdges = [], incomingEdges = []\<rparr>"

definition hasNode :: "DepGraph \<Rightarrow> string \<Rightarrow> bool" where
  "hasNode graph node = (node \<in> set (nodes graph))"

definition addNode :: "DepGraph \<Rightarrow> string \<Rightarrow> DepGraph" where
  "addNode graph node =
     (if \<not> hasNode graph node
      then \<lparr>nodes = nodes graph @ [node],
            outgoingEdges = Map_set (outgoingEdges graph) node [],
            incomingEdges = Map_set (incomingEdges graph) node []\<rparr>
      else graph)"

text \<open>\<open>if (edges[a].indexOf(b) === -1) edges[a].push(b)\<close>.\<close>

definition push_edge :: "(string, string list) js_map \<Rightarrow> string \<Rightarrow> string \<Rightarrow> js_error + (string, string list) js_map" where
  "push_edge edges a b =
     (case map_of edges a of
        None \<Rightarrow> Inl TypeError
      | Some es \<Rightarrow> Inr (if b \<notin> set es then Map_set edges a (es @ [b]) else edges))"

definition addDependency :: "DepGraph \<Rightarrow> string \<Rightarrow> string \<Rightarrow> js_error + DepGraph" where
  "addDependency graph from to =
     (if \<not> hasNode graph from then Inl (Error (''Node does not exist: '' @ from))
      else if \<not> hasNode graph to then Inl (Error (''Node does not exist: '' @ to))
      else (case push_edge (outgoingEdges graph) from to of
              Inl err \<Rightarrow> Inl err
            | Inr out \<Rightarrow>
                (case push_edge (incomingEdges graph) to from of
                   Inl err \<Rightarrow> Inl err
                 | Inr inc \<Rightarrow> Inr (graph\<lparr>outgoingEdges := out, incomingEdges := inc\<rparr>))))"

text \<open>
  The search of \<open>createDFS(edges, leavesOnly, result, circular)\<close> for the default
  \<open>circular = false\<close> and no \<open>leavesOnly\<close>, as every call of the scripts has it. A node
  is marked visited exactly when it is pushed on \<open>result\<close>, so \<open>visited[node]\<close> is
  membership in \<open>result\<close>. A node on the current path that is reached again throws
  the cycle error; otherwise the edges of the node are searched in order, then the
  node is pushed. The package runs the search with an explicit stack; the recursion
  here visits the nodes, pushes them and throws in the same order. \<open>edges[node]\<close> of a
  name that is not a key is \<open>undefined\<close>, and reading its length a TypeError.
\<close>

function DFS :: "(string, string list) js_map \<Rightarrow> string list \<Rightarrow> string \<Rightarrow> string list \<Rightarrow> js_error + string list" where
  "DFS edges currentPath node result =
     (if node \<in> set result then Inr result
      else if node \<in> set currentPath then Inl (DepGraphCycleError (currentPath @ [node]))
      else (case map_of edges node of
              None \<Rightarrow> Inl TypeError
            | Some nodeEdges \<Rightarrow>
                (case for_of nodeEdges (DFS edges (currentPath @ [node])) result of
                   Inl err \<Rightarrow> Inl err
                 | Inr result' \<Rightarrow> Inr (result' @ [node]))))"
  by pat_completeness auto

termination
proof (relation "measure (\<lambda>(edges, currentPath, node, result). card (fst ` set edges - set currentPath))")
  show "wf (measure (\<lambda>(edges, currentPath, node, result). card (fst ` set edges - set currentPath)))"
    by simp
next
  fix edges :: "(string, string list) js_map" and currentPath node result nodeEdges x and u :: "string list"
  assume "node \<notin> set currentPath" and "map_of edges node = Some nodeEdges"
  then have "node \<in> fst ` set edges - set currentPath"
    by (auto dest: map_of_SomeD intro: rev_image_eqI)
  moreover have "node \<notin> fst ` set edges - set (currentPath @ [node])" by simp
  ultimately have "fst ` set edges - set (currentPath @ [node]) \<subset> fst ` set edges - set currentPath"
    by auto
  then have "card (fst ` set edges - set (currentPath @ [node])) < card (fst ` set edges - set currentPath)"
    by (intro psubset_card_mono) auto
  then show "((edges, currentPath @ [node], x, u), (edges, currentPath, node, result))
      \<in> measure (\<lambda>(edges, currentPath, node, result). card (fst ` set edges - set currentPath))"
    by simp
qed

declare DFS.simps [simp del]

definition dependenciesOf :: "DepGraph \<Rightarrow> string \<Rightarrow> js_error + string list" where
  "dependenciesOf graph name =
     (if hasNode graph name
      then (case DFS (outgoingEdges graph) [] name [] of
              Inl err \<Rightarrow> Inl err
            | Inr result \<Rightarrow> Inr (remove1 name result))
      else Inl (Error (''Node does not exist: '' @ name)))"

text \<open>\<open>keys.filter(node => incomingEdges[node].length === 0)\<close>.\<close>

definition entry_nodes :: "DepGraph \<Rightarrow> string list \<Rightarrow> js_error + string list" where
  "entry_nodes graph keys =
     for_of keys
       (\<lambda>node acc. case map_of (incomingEdges graph) node of
                      None \<Rightarrow> Inl TypeError
                    | Some inc \<Rightarrow> Inr (if length inc = 0 then acc @ [node] else acc))
       []"

definition overallOrder :: "DepGraph \<Rightarrow> js_error + string list" where
  "overallOrder graph =
     (let keys = nodes graph
      in if length keys = 0 then Inr []
         else (case for_of keys (DFS (outgoingEdges graph) []) [] of
                 Inl err \<Rightarrow> Inl err
               | Inr cycleResult \<Rightarrow>
                   (case entry_nodes graph keys of
                      Inl err \<Rightarrow> Inl err
                    | Inr entries \<Rightarrow> for_of entries (DFS (outgoingEdges graph) []) [])))"

section \<open>version-cascade.js\<close>

subsection \<open>Bump levels\<close>

definition BUMP_PRIORITY :: "(string \<times> nat) list" where
  "BUMP_PRIORITY = [(''major'', 3), (''minor'', 2), (''patch'', 1)]"

text \<open>\<open>BUMP_PRIORITY[bump] || 0\<close>: a key outside the table has priority 0.\<close>

definition priority_of :: "string \<Rightarrow> nat" where
  "priority_of bump = (case map_of BUMP_PRIORITY bump of Some p \<Rightarrow> p | None \<Rightarrow> 0)"

definition maxBumpType_step :: "string \<times> nat \<Rightarrow> string \<Rightarrow> string \<times> nat" where
  "maxBumpType_step acc bump =
     (let priority = priority_of bump
      in if priority > snd acc then (bump, priority) else acc)"

definition maxBumpType :: "string list \<Rightarrow> string" where
  "maxBumpType bumps =
     (if length bumps = 0 then ''patch''
      else fst (foldl maxBumpType_step (''patch'', priority_of ''patch'') bumps))"

subsection \<open>Module bumps\<close>

definition ENTITY_TYPES :: "string list" where
  "ENTITY_TYPES = [''categories'', ''properties'', ''subobjects'', ''templates'']"

text \<open>The template literal \<open>`${entityType}:${entityId}`\<close>.\<close>

definition entity_key :: "string \<Rightarrow> string \<Rightarrow> string" where
  "entity_key entityType entityId = entityType @ '':'' @ entityId"

definition buildReverseModuleIndex :: "EntityIndex \<Rightarrow> (string, string) js_map" where
  "buildReverseModuleIndex entityIndex =
     foldl (\<lambda>reverseIndex (moduleId, moduleEntity).
        foldl (\<lambda>reverseIndex entityType.
           foldl (\<lambda>reverseIndex entityId.
                    Map_set reverseIndex (entity_key entityType entityId) moduleId)
             reverseIndex (or_empty (field moduleEntity entityType)))
          reverseIndex ENTITY_TYPES)
       [] (modules entityIndex)"

text \<open>
  A change record of the change detector: the path of the changed file, the entity
  type and the bump level of the change.
\<close>

record ChangeRecord =
  cr_file :: string
  cr_entityType :: string
  cr_changeType :: string

text \<open>\<open>s.split(c)\<close> for a one-character separator: never the empty array.\<close>

fun split_on :: "char \<Rightarrow> string \<Rightarrow> string list" where
  "split_on c [] = [[]]"
| "split_on c (x # xs) =
     (if x = c then [] # split_on c xs
      else (case split_on c xs of p # ps \<Rightarrow> (x # p) # ps | [] \<Rightarrow> [[x]]))"

text \<open>\<open>s.replace(pat, rep)\<close> for a string pattern: the first occurrence only.\<close>

fun replace_first :: "string \<Rightarrow> string \<Rightarrow> string \<Rightarrow> string" where
  "replace_first pat rep [] = (if pat = [] then rep else [])"
| "replace_first pat rep (x # xs) =
     (if prefix pat (x # xs) then rep @ drop (length pat) (x # xs)
      else x # replace_first pat rep xs)"

text \<open>
  The key that \<open>calculateModuleBumps\<close> and the orphan filter of
  \<open>calculateVersionCascade\<close> derive from \<open>change.file\<close>: the first path segment, and
  the last path segment without its first \<open>.json\<close>. The array of segments is never
  empty (\<open>split_on_nonempty\<close> below), so \<open>parts[0]\<close> and
  \<open>parts[parts.length - 1]\<close> are its head and its last element.
\<close>

definition change_key :: "ChangeRecord \<Rightarrow> string" where
  "change_key change =
     (let parts = split_on (CHR ''/'') (cr_file change);
          entityType = hd parts;
          fileName = last parts;
          entityId = replace_first ''.json'' [] fileName
      in entity_key entityType entityId)"

definition moduleBumps_step ::
  "(string, string) js_map \<Rightarrow> (string, string) js_map \<Rightarrow> ChangeRecord \<Rightarrow> (string, string) js_map" where
  "moduleBumps_step reverseIndex moduleBumps change =
     (case map_of reverseIndex (change_key change) of
        None \<Rightarrow> moduleBumps
      | Some moduleId \<Rightarrow>
          if \<not> truthy moduleId then moduleBumps
          else (case map_of moduleBumps moduleId of
                  None \<Rightarrow> Map_set moduleBumps moduleId (cr_changeType change)
                | Some existingBump \<Rightarrow>
                    if truthy existingBump
                    then (let newBump = maxBumpType [existingBump, cr_changeType change]
                          in Map_set moduleBumps moduleId newBump)
                    else Map_set moduleBumps moduleId (cr_changeType change)))"

definition calculateModuleBumps :: "EntityIndex \<Rightarrow> ChangeRecord list \<Rightarrow> (string, string) js_map" where
  "calculateModuleBumps entityIndex changes =
     (let reverseIndex = buildReverseModuleIndex entityIndex
      in foldl (moduleBumps_step reverseIndex) [] changes)"

subsection \<open>The dependency cascade\<close>

text \<open>
  \<open>buildModuleDependencyGraph\<close> (the same function in version-cascade.js and in
  reference-validator.js): a node for every module, then an edge for every declared
  dependency that is a module of the index.
\<close>

definition buildModuleDependencyGraph :: "EntityIndex \<Rightarrow> js_error + DepGraph" where
  "buildModuleDependencyGraph entityIndex =
     (let graph = foldl (\<lambda>graph (moduleId, moduleEntity). addNode graph moduleId)
                    new_DepGraph (modules entityIndex)
      in for_of (modules entityIndex)
           (\<lambda>(moduleId, moduleEntity) graph.
              (let deps = or_empty (field moduleEntity ''dependencies'')
               in for_of deps
                    (\<lambda>depId graph.
                       if Map_has (modules entityIndex) depId
                       then addDependency graph moduleId depId
                       else Inr graph)
                    graph))
           graph)"

text \<open>
  The bumps of the ids that have one, in order:
  \<open>for (const id of ids) if (bumps.has(id)) result.push(bumps.get(id))\<close>, which the
  cascade runs over the dependencies of a module and \<open>calculateBundleBumps\<close> over
  the member modules of a bundle.
\<close>

definition member_bumps :: "(string, string) js_map \<Rightarrow> string list \<Rightarrow> string list" where
  "member_bumps moduleBumps moduleIds = List.map_filter (map_of moduleBumps) moduleIds"

text \<open>
  The body of the loop of \<open>propagateDependencyCascade\<close>. Only \<open>dependenciesOf\<close> can
  throw, before the iteration changes \<open>cascadedBumps\<close>.
\<close>

definition cascade_module ::
  "DepGraph \<Rightarrow> string \<Rightarrow> (string, string) js_map \<Rightarrow> js_error + (string, string) js_map" where
  "cascade_module moduleGraph moduleId cascadedBumps =
     (case dependenciesOf moduleGraph moduleId of
        Inl err \<Rightarrow> Inl err
      | Inr deps \<Rightarrow>
          (let depBumps = member_bumps cascadedBumps deps
           in if length depBumps > 0
              then (let maxDepBump = maxBumpType depBumps
                    in case map_of cascadedBumps moduleId of
                         None \<Rightarrow> Inr (Map_set cascadedBumps moduleId maxDepBump)
                       | Some currentBump \<Rightarrow>
                           if truthy currentBump
                           then (let finalBump = maxBumpType [currentBump, maxDepBump]
                                 in Inr (Map_set cascadedBumps moduleId finalBump))
                           else Inr (Map_set cascadedBumps moduleId maxDepBump))
              else Inr cascadedBumps))"

text \<open>
  The loop inside the \<open>try\<close> block: \<open>cascadedBumps\<close> is a variable of the enclosing
  function, so when an iteration throws, the \<open>catch\<close> block sees the map as the
  earlier iterations left it.
\<close>

fun cascade_loop ::
  "DepGraph \<Rightarrow> string list \<Rightarrow> (string, string) js_map \<Rightarrow> js_error option \<times> (string, string) js_map" where
  "cascade_loop moduleGraph [] cascadedBumps = (None, cascadedBumps)"
| "cascade_loop moduleGraph (moduleId # order) cascadedBumps =
     (case cascade_module moduleGraph moduleId cascadedBumps of
        Inl err \<Rightarrow> (Some err, cascadedBumps)
      | Inr cascadedBumps' \<Rightarrow> cascade_loop moduleGraph order cascadedBumps')"

text \<open>\<open>err.message && err.message.includes('Dependency Cycle Found')\<close>.\<close>

definition is_cycle_error :: "js_error \<Rightarrow> bool" where
  "is_cycle_error err = (truthy (message err) \<and> sublist ''Dependency Cycle Found'' (message err))"

definition propagateDependencyCascade ::
  "DepGraph \<Rightarrow> (string, string) js_map \<Rightarrow> js_error + (string, string) js_map" where
  "propagateDependencyCascade moduleGraph moduleBumps =
     (let cascadedBumps = moduleBumps
      in case (case overallOrder moduleGraph of
                 Inl err \<Rightarrow> (Some err, cascadedBumps)
               | Inr order \<Rightarrow> cascade_loop moduleGraph order cascadedBumps) of
           (Some err, cascadedBumps') \<Rightarrow>
             if is_cycle_error err then Inr cascadedBumps' else Inl err
         | (None, cascadedBumps') \<Rightarrow> Inr cascadedBumps')"

subsection \<open>Bundle bumps, ontology bump and the whole cascade\<close>

definition bundleBumps_step ::
  "(string, string) js_map \<Rightarrow> (string, string) js_map \<Rightarrow> string \<times> Entity \<Rightarrow> (string, string) js_map" where
  "bundleBumps_step moduleBumps bundleBumps entry =
     (case entry of (bundleId, bundleEntity) \<Rightarrow>
        (let moduleIds = or_empty (field bundleEntity ''modules'');
             bumps = member_bumps moduleBumps moduleIds
         in if length bumps > 0 then Map_set bundleBumps bundleId (maxBumpType bumps)
            else bundleBumps))"

definition calculateBundleBumps :: "EntityIndex \<Rightarrow> (string, string) js_map \<Rightarrow> (string, string) js_map" where
  "calculateBundleBumps entityIndex moduleBumps =
     foldl (bundleBumps_step moduleBumps) [] (bundles entityIndex)"

definition calculateOntologyBump ::
  "ChangeRecord list option \<Rightarrow> (string, string) js_map \<Rightarrow> (string, string) js_map \<Rightarrow> string" where
  "calculateOntologyBump changes moduleBumps bundleBumps =
     (case changes of
        None \<Rightarrow> ''patch''
      | Some cs \<Rightarrow>
          if length cs = 0 then ''patch''
          else (let bumps = map cr_changeType cs in maxBumpType bumps))"

text \<open>
  \<open>calculateVersionCascade\<close>, with the changes that \<open>detectChanges\<close>
  (change-detector.js) returns as a parameter.
\<close>

record CascadeResult =
  res_changes :: "ChangeRecord list"
  res_moduleBumps :: "(string, string) js_map"
  res_bundleBumps :: "(string, string) js_map"
  res_ontologyBump :: string
  res_orphanChanges :: "ChangeRecord list"

definition no_changes_result :: CascadeResult where
  "no_changes_result =
     \<lparr>res_changes = [], res_moduleBumps = [], res_bundleBumps = [],
      res_ontologyBump = ''patch'', res_orphanChanges = []\<rparr>"

definition calculateVersionCascade :: "EntityIndex \<Rightarrow> ChangeRecord list option \<Rightarrow> js_error + CascadeResult" where
  "calculateVersionCascade entityIndex detected =
     (case detected of
        None \<Rightarrow> Inr no_changes_result
      | Some changes \<Rightarrow>
          if length changes = 0 then Inr no_changes_result
          else (let reverseIndex = buildReverseModuleIndex entityIndex
                in case buildModuleDependencyGraph entityIndex of
                     Inl err \<Rightarrow> Inl err
                   | Inr moduleGraph \<Rightarrow>
                       (let initialModuleBumps = calculateModuleBumps entityIndex changes
                        in case propagateDependencyCascade moduleGraph initialModuleBumps of
                             Inl err \<Rightarrow> Inl err
                           | Inr moduleBumps \<Rightarrow>
                               (let bundleBumps = calculateBundleBumps entityIndex moduleBumps;
                                    ontologyBump = calculateOntologyBump (Some changes) moduleBumps bundleBumps;
                                    orphanChanges = filter (\<lambda>change. \<not> Map_has reverseIndex (change_key change)) changes
                                in Inr \<lparr>res_changes = changes, res_moduleBumps = moduleBumps,
                                        res_bundleBumps = bundleBumps, res_ontologyBump = ontologyBump,
                                        res_orphanChanges = orphanChanges\<rparr>))))"

subsection \<open>The next version\<close>

text \<open>Decimal numerals and version strings of three dot-separated numbers.\<close>

definition digit_char :: "nat \<Rightarrow> char" where
  "digit_char d = ''0123456789'' ! d"

definition digit_of :: "char \<Rightarrow> nat option" where
  "digit_of c =
     map_of [(CHR ''0'', 0), (CHR ''1'', 1), (CHR ''2'', 2), (CHR ''3'', 3), (CHR ''4'', 4),
             (CHR ''5'', 5), (CHR ''6'', 6), (CHR ''7'', 7), (CHR ''8'', 8), (CHR ''9'', 9)] c"

function show_nat :: "nat \<Rightarrow> string" where
  "show_nat n = (if n < 10 then [digit_char n] else show_nat (n div 10) @ [digit_char (n mod 10)])"
  by pat_completeness auto

termination
  by (relation "measure id") auto

declare show_nat.simps [simp del]

fun parse_digits :: "nat \<Rightarrow> string \<Rightarrow> nat option" where
  "parse_digits acc [] = Some acc"
| "parse_digits acc (c # cs) =
     (case digit_of c of None \<Rightarrow> None | Some d \<Rightarrow> parse_digits (acc * 10 + d) cs)"

definition parse_nat :: "string \<Rightarrow> nat option" where
  "parse_nat s = (if s = [] then None else parse_digits 0 s)"

definition parse_version :: "string \<Rightarrow> (nat \<times> nat \<times> nat) option" where
  "parse_version version =
     (case split_on (CHR ''.'') version of
        [a, b, c] \<Rightarrow>
          (case (parse_nat a, parse_nat b, parse_nat c) of
             (Some major, Some minor, Some patch) \<Rightarrow> Some (major, minor, patch)
           | _ \<Rightarrow> None)
      | _ \<Rightarrow> None)"

definition format_version :: "nat \<times> nat \<times> nat \<Rightarrow> string" where
  "format_version v =
     (case v of (major, minor, patch) \<Rightarrow> show_nat major @ ''.'' @ show_nat minor @ ''.'' @ show_nat patch)"

text \<open>
  Modelled from the spec: \<open>calculateNewVersion\<close> is exported by version-cascade.js
  and exercised by its tests, but its body is not among the source files. The spec
  says: \<open>major\<close> increments the major component and zeroes minor and patch;
  \<open>minor\<close> increments minor and zeroes patch; \<open>patch\<close> increments patch only; the
  result is a failure sentinel (here \<open>None\<close>, the tests' \<open>null\<close>) when the version
  fails to parse as three dot-separated non-negative integers, or when the bump type
  is absent or unrecognized. \<open>parse_version\<close> and \<open>format_version\<close> above read and
  print such a version.
\<close>

definition calculateNewVersion :: "string option \<Rightarrow> string option \<Rightarrow> string option" where
  "calculateNewVersion version bumpType =
     (case version of
        None \<Rightarrow> None
      | Some v \<Rightarrow>
          (case parse_version v of
             None \<Rightarrow> None
           | Some (major, minor, patch) \<Rightarrow>
               (case bumpType of
                  None \<Rightarrow> None
                | Some b \<Rightarrow>
                    if b = ''major'' then Some (format_version (major + 1, 0, 0))
                    else if b = ''minor'' then Some (format_version (major, minor + 1, 0))
                    else if b = ''patch'' then Some (format_version (major, minor, patch + 1))
                    else None)))"

section \<open>reference-validator.js\<close>

definition REFERENCE_FIELDS :: "(string \<times> (string \<times> string) list) list" where
  "REFERENCE_FIELDS =
     [(''categories'',
         [(''parents'', ''categories''),
          (''required_properties'', ''properties''),
          (''optional_properties'', ''properties''),
          (''required_subobjects'', ''subobjects''),
          (''optional_subobjects'', ''subobjects'')]),
      (''subobjects'',
         [(''required_properties'', ''properties''),
          (''optional_properties'', ''properties'')]),
      (''properties'',
         [(''parent_property'', ''properties''),
          (''has_display_template'', ''templates'')]),
      (''modules'',
         [(''categories'', ''categories''),
          (''properties'', ''properties''),
          (''subobjects'', ''subobjects''),
          (''templates'', ''templates''),
          (''dependencies'', ''modules'')]),
      (''bundles'',
         [(''modules'', ''modules'')])]"

text \<open>
  \<open>getModuleScope\<close>: \<open>Some\<close> of the scope, or \<open>None\<close> for the \<open>null\<close> that the
  \<open>catch\<close> block returns on a cycle error; any other error is thrown again.
\<close>

definition getModuleScope :: "DepGraph \<Rightarrow> string \<Rightarrow> js_error + string list option" where
  "getModuleScope graph moduleId =
     (let scope = [moduleId]
      in case dependenciesOf graph moduleId of
           Inr deps \<Rightarrow> Inr (Some (foldl Set_add scope deps))
         | Inl err \<Rightarrow> if is_cycle_error err then Inr None else Inl err)"

definition normalizeToArray :: "field_value option \<Rightarrow> string list" where
  "normalizeToArray v =
     (case v of
        None \<Rightarrow> []
      | Some (Str s) \<Rightarrow> if truthy s then [s] else []
      | Some (Arr xs) \<Rightarrow> xs)"

record RefError =
  err_file :: string
  err_type :: string
  err_message :: string

definition scopeCheckTypes :: "string list" where
  "scopeCheckTypes = [''categories'', ''properties'', ''subobjects'', ''templates'']"

text \<open>The double quote of the message templates.\<close>

definition dq :: string where
  "dq = [CHR 0x22]"

definition self_reference_error :: "Entity \<Rightarrow> string \<Rightarrow> string \<Rightarrow> RefError" where
  "self_reference_error entity fieldName refId =
     \<lparr>err_file = filePath entity, err_type = ''self-reference'',
      err_message = ''Self-reference in field '' @ dq @ fieldName @ dq @ '': '' @ dq @ refId @ dq
                     @ '' references itself''\<rparr>"

definition missing_reference_error :: "Entity \<Rightarrow> string \<Rightarrow> string \<Rightarrow> string \<Rightarrow> RefError" where
  "missing_reference_error entity fieldName refId targetType =
     \<lparr>err_file = filePath entity, err_type = ''missing-reference'',
      err_message = ''Missing reference in field '' @ dq @ fieldName @ dq @ '': '' @ dq @ refId @ dq
                     @ '' does not exist in '' @ targetType\<rparr>"

definition scope_violation_error ::
  "Entity \<Rightarrow> string \<Rightarrow> string \<Rightarrow> string \<Rightarrow> string option \<Rightarrow> RefError" where
  "scope_violation_error entity fieldName refId targetModuleId sourceModuleId =
     \<lparr>err_file = filePath entity, err_type = ''scope-violation'',
      err_message = ''Module scope violation in field '' @ dq @ fieldName @ dq @ '': '' @ dq @ refId @ dq
                     @ '' is in module '' @ dq @ targetModuleId @ dq
                     @ '' which is not a dependency of '' @ dq
                     @ (case sourceModuleId of Some m \<Rightarrow> m | None \<Rightarrow> ''undefined'') @ dq\<rparr>"

text \<open>
  The body of the innermost loop of \<open>validateReferences\<close>, for one \<open>refId\<close>: the
  errors after the iteration. An entity type outside the index makes
  \<open>entityIndex[targetType]\<close> undefined, and \<open>.has\<close> on it a TypeError.
\<close>

definition validate_ref ::
  "EntityIndex \<Rightarrow> (string, string) js_map \<Rightarrow> string \<Rightarrow> string \<Rightarrow> Entity \<Rightarrow> string option
     \<Rightarrow> string list option \<Rightarrow> string \<Rightarrow> string \<Rightarrow> string \<Rightarrow> RefError list \<Rightarrow> js_error + RefError list" where
  "validate_ref entityIndex reverseModuleIndex entityType entityId entity sourceModuleId moduleScope
       fieldName targetType refId errors =
     (if refId = entityId \<and> targetType = entityType
      then Inr (errors @ [self_reference_error entity fieldName refId])
      else (case index_get entityIndex targetType of
              None \<Rightarrow> Inl TypeError
            | Some targetIndex \<Rightarrow>
                if \<not> Map_has targetIndex refId
                then Inr (errors @ [missing_reference_error entity fieldName refId targetType])
                else (case moduleScope of
                        None \<Rightarrow> Inr errors
                      | Some scope \<Rightarrow>
                          if entityType \<in> set scopeCheckTypes \<and> targetType \<noteq> ''modules''
                          then (let targetKey = entity_key targetType refId
                                in case map_of reverseModuleIndex targetKey of
                                     None \<Rightarrow> Inr errors
                                   | Some targetModuleId \<Rightarrow>
                                       if truthy targetModuleId \<and> targetModuleId \<notin> set scope
                                       then Inr (errors @ [scope_violation_error entity fieldName refId
                                                             targetModuleId sourceModuleId])
                                       else Inr errors)
                          else Inr errors)))"

text \<open>
  \<open>let moduleScope = null; if (sourceModuleId && scopeCheckTypes.has(entityType))
  moduleScope = getModuleScope(moduleGraph, sourceModuleId)\<close>.
\<close>

definition source_scope ::
  "DepGraph \<Rightarrow> string option \<Rightarrow> string \<Rightarrow> js_error + string list option" where
  "source_scope moduleGraph sourceModuleId entityType =
     (case sourceModuleId of
        None \<Rightarrow> Inr None
      | Some m \<Rightarrow>
          if truthy m \<and> entityType \<in> set scopeCheckTypes then getModuleScope moduleGraph m
          else Inr None)"

definition validate_entity ::
  "EntityIndex \<Rightarrow> DepGraph \<Rightarrow> (string, string) js_map \<Rightarrow> string \<Rightarrow> (string \<times> string) list
     \<Rightarrow> string \<times> Entity \<Rightarrow> RefError list \<Rightarrow> js_error + RefError list" where
  "validate_entity entityIndex moduleGraph reverseModuleIndex entityType fieldMap entry errors =
     (case entry of (entityId, entity) \<Rightarrow>
        (let entityKey = entity_key entityType entityId;
             sourceModuleId = map_of reverseModuleIndex entityKey
         in case source_scope moduleGraph sourceModuleId entityType of
              Inl err \<Rightarrow> Inl err
            | Inr moduleScope \<Rightarrow>
                for_of fieldMap
                  (\<lambda>(fieldName, targetType) errors.
                     (let refs = normalizeToArray (field entity fieldName)
                      in for_of refs
                           (validate_ref entityIndex reverseModuleIndex entityType entityId entity
                              sourceModuleId moduleScope fieldName targetType)
                           errors))
                  errors))"

definition validateReferences :: "EntityIndex \<Rightarrow> js_error + RefError list \<times> string list" where
  "validateReferences entityIndex =
     (let errors = []; warnings = []
      in case buildModuleDependencyGraph entityIndex of
           Inl err \<Rightarrow> Inl err
         | Inr moduleGraph \<Rightarrow>
             (let reverseModuleIndex = buildReverseModuleIndex entityIndex
              in case for_of REFERENCE_FIELDS
                        (\<lambda>(entityType, fieldMap) errors.
                           case index_get entityIndex entityType of
                             None \<Rightarrow> Inl TypeError
                           | Some entities \<Rightarrow>
                               for_of entities
                                 (validate_entity entityIndex moduleGraph reverseModuleIndex
                                    entityType fieldMap)
                                 errors)
                        errors of
                   Inl err \<Rightarrow> Inl err
                 | Inr errors' \<Rightarrow> Inr (errors', warnings)))"

section \<open>Notions used in the statements\<close>

subsection \<open>Bump levels and graphs\<close>

text \<open>The three bump levels of the change record contract.\<close>

definition bump_levels :: "string set" where
  "bump_levels = {''major'', ''minor'', ''patch''}"

text \<open>
  The relation of an edge table, and the dependency relation of a graph: \<open>(a, b)\<close>
  when \<open>b\<close> is in the list of outgoing edges of \<open>a\<close>. A graph has a cycle when some
  module depends on itself through one or more edges.
\<close>

definition edge_rel :: "(string, string list) js_map \<Rightarrow> (string \<times> string) set" where
  "edge_rel edges = {(a, b). \<exists>es. map_of edges a = Some es \<and> b \<in> set es}"

definition dependsOn :: "DepGraph \<Rightarrow> (string \<times> string) set" where
  "dependsOn graph = edge_rel (outgoingEdges graph)"

definition has_cycle :: "DepGraph \<Rightarrow> bool" where
  "has_cycle graph = (\<exists>n. (n, n) \<in> (dependsOn graph)\<^sup>+)"

text \<open>
  What \<open>addNode\<close> and \<open>addDependency\<close> maintain (\<open>wf_graph_new\<close>,
  \<open>wf_graph_addNode\<close>, \<open>wf_graph_addDependency\<close> below), and so what holds of every
  \<open>DepGraph\<close> object: the two edge tables have the node names as their keys, every
  edge ends in a node, and the incoming edges are the outgoing edges reversed.
\<close>

definition targets_ok :: "(string, string list) js_map \<Rightarrow> bool" where
  "targets_ok edges = (Range (edge_rel edges) \<subseteq> fst ` set edges)"

definition wf_graph :: "DepGraph \<Rightarrow> bool" where
  "wf_graph graph =
     (fst ` set (outgoingEdges graph) = set (nodes graph)
      \<and> fst ` set (incomingEdges graph) = set (nodes graph)
      \<and> targets_ok (outgoingEdges graph)
      \<and> edge_rel (incomingEdges graph) = (edge_rel (outgoingEdges graph))\<inverse>)"

text \<open>
  The invariant of the search between two visits: the visited nodes are closed under
  the edges, none of them lies on a cycle, and none was pushed twice.
\<close>

definition DFS_inv :: "(string \<times> string) set \<Rightarrow> string list \<Rightarrow> bool" where
  "DFS_inv E r = (E `` set r \<subseteq> set r \<and> (\<forall>u \<in> set r. (u, u) \<notin> E\<^sup>+) \<and> distinct r)"

subsection \<open>The bump a module ends with\<close>

text \<open>
  The input bump of a module (at most one), the input bumps of the modules it depends
  on directly or transitively, the greatest level of a set of bumps, and the entry a
  module has after the cascade on an acyclic graph. \<open>cascade_inv\<close> is the invariant
  of the loop: every entry is still the input entry or already the final one.
\<close>

definition own_values :: "(string, string) js_map \<Rightarrow> string \<Rightarrow> string set" where
  "own_values bumps m = {b. map_of bumps m = Some b}"

definition dep_values :: "DepGraph \<Rightarrow> (string, string) js_map \<Rightarrow> string \<Rightarrow> string set" where
  "dep_values g bumps m = {b. \<exists>d. (m, d) \<in> (dependsOn g)\<^sup>+ \<and> map_of bumps d = Some b}"

definition max_of :: "string set \<Rightarrow> string" where
  "max_of S = (if ''major'' \<in> S then ''major'' else if ''minor'' \<in> S then ''minor'' else ''patch'')"

definition cascaded :: "DepGraph \<Rightarrow> (string, string) js_map \<Rightarrow> string \<Rightarrow> string option" where
  "cascaded g bumps m =
     (if dep_values g bumps m = {} then map_of bumps m
      else Some (max_of (own_values bumps m \<union> dep_values g bumps m)))"

definition cascade_inv :: "DepGraph \<Rightarrow> (string, string) js_map \<Rightarrow> (string, string) js_map \<Rightarrow> bool" where
  "cascade_inv g bumps cb = (\<forall>x. map_of cb x = map_of bumps x \<or> map_of cb x = cascaded g bumps x)"

subsection \<open>The run of the validator\<close>

text \<open>
  The values the code computes on its way, used in the proofs: the dependencies that
  the loop of \<open>buildModuleDependencyGraph\<close> reads from the modules \<open>ms\<close> among the
  modules \<open>mods\<close>, the edges it adds for an index, and the entry of an entity in the
  reverse index.
\<close>

definition declared_deps :: "(string, Entity) js_map \<Rightarrow> (string, Entity) js_map \<Rightarrow> (string \<times> string) set" where
  "declared_deps mods ms =
     {(m, d). \<exists>e. (m, e) \<in> set ms \<and> d \<in> set (or_empty (field e ''dependencies'')) \<and> Map_has mods d}"

definition module_deps :: "EntityIndex \<Rightarrow> (string \<times> string) set" where
  "module_deps entityIndex = declared_deps (modules entityIndex) (modules entityIndex)"

definition owner :: "EntityIndex \<Rightarrow> string \<Rightarrow> string \<Rightarrow> string option" where
  "owner entityIndex entityType entityId =
     map_of (buildReverseModuleIndex entityIndex) (entity_key entityType entityId)"

text \<open>
  What one iteration of the innermost loop pushes when it runs inside
  \<open>validateReferences\<close>: the graph, the reverse index and the module scope are the
  ones the validator computes for the entity.
\<close>

definition emitted ::
  "EntityIndex \<Rightarrow> string \<times> string \<times> Entity \<times> string \<times> string \<times> string \<Rightarrow> js_error + RefError list" where
  "emitted entityIndex reference =
     (case reference of (entityType, entityId, entity, fieldName, targetType, refId) \<Rightarrow>
        (case buildModuleDependencyGraph entityIndex of
           Inl err \<Rightarrow> Inl err
         | Inr moduleGraph \<Rightarrow>
             (let reverseModuleIndex = buildReverseModuleIndex entityIndex;
                  sourceModuleId = map_of reverseModuleIndex (entity_key entityType entityId)
              in case source_scope moduleGraph sourceModuleId entityType of
                   Inl err \<Rightarrow> Inl err
                 | Inr moduleScope \<Rightarrow>
                     validate_ref entityIndex reverseModuleIndex entityType entityId entity
                       sourceModuleId moduleScope fieldName targetType refId [])))"

text \<open>
  The iterations of the innermost loop, in the order of the run: for every entity
  type of \<open>REFERENCE_FIELDS\<close>, every entity of the type, every declared field and
  every element of the normalized field value.
\<close>

fun refs_of_field ::
  "string \<Rightarrow> string \<Rightarrow> Entity \<Rightarrow> string \<times> string
     \<Rightarrow> (string \<times> string \<times> Entity \<times> string \<times> string \<times> string) list" where
  "refs_of_field entityType entityId entity (fieldName, targetType) =
     map (\<lambda>refId. (entityType, entityId, entity, fieldName, targetType, refId))
       (normalizeToArray (field entity fieldName))"

fun refs_of_entity ::
  "string \<Rightarrow> (string \<times> string) list \<Rightarrow> string \<times> Entity
     \<Rightarrow> (string \<times> string \<times> Entity \<times> string \<times> string \<times> string) list" where
  "refs_of_entity entityType fieldMap (entityId, entity) =
     concat (map (refs_of_field entityType entityId entity) fieldMap)"

fun refs_of_type ::
  "EntityIndex \<Rightarrow> string \<times> (string \<times> string) list
     \<Rightarrow> (string \<times> string \<times> Entity \<times> string \<times> string \<times> string) list" where
  "refs_of_type entityIndex (entityType, fieldMap) =
     concat (map (refs_of_entity entityType fieldMap)
       (case index_get entityIndex entityType of Some entities \<Rightarrow> entities | None \<Rightarrow> []))"

definition all_references ::
  "EntityIndex \<Rightarrow> (string \<times> string \<times> Entity \<times> string \<times> string \<times> string) list" where
  "all_references entityIndex = concat (map (refs_of_type entityIndex) REFERENCE_FIELDS)"

text \<open>The list a computation returns, empty when it throws.\<close>

definition outs_of :: "js_error + 'a list \<Rightarrow> 'a list" where
  "outs_of r = (case r of Inl err \<Rightarrow> [] | Inr out \<Rightarrow> out)"

subsection \<open>References, existence and ownership, read off the index\<close>

text \<open>
  The notions of the statements on the validator. They are stated on the entity
  index alone, without the reverse index and the normalized arrays of the code; the lemmas \<open>owner_owning_module\<close>, \<open>module_deps_module_dependencies\<close>,
  \<open>all_references_references\<close> and \<open>references_iff\<close> below show that the code
  computes them.

  The four types of the members of a module. An entity lists an id in a field when
  the field is an array with the id among its elements; a field that holds a string
  lists the characters of the string, which is what iterating over it visits.
\<close>

definition member_types :: "string set" where
  "member_types = {''categories'', ''properties'', ''subobjects'', ''templates''}"

definition lists_id :: "Entity \<Rightarrow> string \<Rightarrow> string \<Rightarrow> bool" where
  "lists_id entity fieldName x =
     (case field entity fieldName of
        None \<Rightarrow> False
      | Some (Arr xs) \<Rightarrow> x \<in> set xs
      | Some (Str s) \<Rightarrow> x \<in> (\<lambda>c. [c]) ` set s)"

text \<open>
  The owning module of an entity: the module that lists the id of the entity in the
  field of the entity's type, the last one in the order of the index when several
  modules do; only members have one. A module depends on the modules of the index
  that it lists in \<open>dependencies\<close>.
\<close>

definition owning_module :: "EntityIndex \<Rightarrow> string \<Rightarrow> string \<Rightarrow> string option" where
  "owning_module entityIndex entityType entityId =
     (if entityType \<in> member_types
      then (case filter (\<lambda>(moduleId, moduleEntity). lists_id moduleEntity entityType entityId)
                   (modules entityIndex) of
              [] \<Rightarrow> None
            | x # xs \<Rightarrow> Some (fst (last (x # xs))))
      else None)"

definition module_dependencies :: "EntityIndex \<Rightarrow> (string \<times> string) set" where
  "module_dependencies entityIndex =
     {(m, d). \<exists>e. (m, e) \<in> set (modules entityIndex) \<and> lists_id e ''dependencies'' d
                \<and> d \<in> fst ` set (modules entityIndex)}"

text \<open>
  The reference fields as the specification declares them: the type of the entity,
  the field and the type of the target (\<open>declared_fields_table\<close> below: this is the
  table \<open>REFERENCE_FIELDS\<close> of the code). A field names a target id when it holds
  that id as a non-empty string or holds an array with the id among its elements. A
  reference of the index is an entity of the index, a reference field declared for
  its type with the target type, and a target id that the field names. A target
  exists when its id is a key of the index of the target type.
\<close>

definition declared_fields :: "(string \<times> string \<times> string) list" where
  "declared_fields =
     [(''categories'', ''parents'', ''categories''),
      (''categories'', ''required_properties'', ''properties''),
      (''categories'', ''optional_properties'', ''properties''),
      (''categories'', ''required_subobjects'', ''subobjects''),
      (''categories'', ''optional_subobjects'', ''subobjects''),
      (''subobjects'', ''required_properties'', ''properties''),
      (''subobjects'', ''optional_properties'', ''properties''),
      (''properties'', ''parent_property'', ''properties''),
      (''properties'', ''has_display_template'', ''templates''),
      (''modules'', ''categories'', ''categories''),
      (''modules'', ''properties'', ''properties''),
      (''modules'', ''subobjects'', ''subobjects''),
      (''modules'', ''templates'', ''templates''),
      (''modules'', ''dependencies'', ''modules''),
      (''bundles'', ''modules'', ''modules'')]"

definition names_target :: "Entity \<Rightarrow> string \<Rightarrow> string \<Rightarrow> bool" where
  "names_target entity fieldName refId =
     (case field entity fieldName of
        None \<Rightarrow> False
      | Some (Str s) \<Rightarrow> s \<noteq> [] \<and> refId = s
      | Some (Arr xs) \<Rightarrow> refId \<in> set xs)"

definition is_reference ::
  "EntityIndex \<Rightarrow> string \<times> string \<times> Entity \<times> string \<times> string \<times> string \<Rightarrow> bool" where
  "is_reference entityIndex reference =
     (case reference of (entityType, entityId, entity, fieldName, targetType, refId) \<Rightarrow>
        (entityType, fieldName, targetType) \<in> set declared_fields
        \<and> (case index_get entityIndex entityType of
              None \<Rightarrow> False
            | Some entities \<Rightarrow> (entityId, entity) \<in> set entities)
        \<and> names_target entity fieldName refId)"

definition target_exists :: "EntityIndex \<Rightarrow> string \<Rightarrow> string \<Rightarrow> bool" where
  "target_exists entityIndex targetType refId =
     (case index_get entityIndex targetType of
        None \<Rightarrow> False
      | Some targetIndex \<Rightarrow> refId \<in> fst ` set targetIndex)"

text \<open>
  The references of an index as a list, with their order and repetitions: for every
  declared type, every entity of the type, every reference field declared for the
  type and every target id of the field value, which are none for an absent field
  and for the empty string, the string itself, and the elements of an array.
\<close>

definition declared_types :: "string list" where
  "declared_types = [''categories'', ''subobjects'', ''properties'', ''modules'', ''bundles'']"

definition fields_of :: "string \<Rightarrow> (string \<times> string) list" where
  "fields_of entityType = map snd (filter (\<lambda>(t, fieldName, targetType). t = entityType) declared_fields)"

definition target_ids :: "Entity \<Rightarrow> string \<Rightarrow> string list" where
  "target_ids entity fieldName =
     (case field entity fieldName of
        None \<Rightarrow> []
      | Some (Str s) \<Rightarrow> if s = [] then [] else [s]
      | Some (Arr xs) \<Rightarrow> xs)"

definition references ::
  "EntityIndex \<Rightarrow> (string \<times> string \<times> Entity \<times> string \<times> string \<times> string) list" where
  "references entityIndex =
     concat (map (\<lambda>entityType.
        concat (map (\<lambda>(entityId, entity).
           concat (map (\<lambda>(fieldName, targetType).
              map (\<lambda>refId. (entityType, entityId, entity, fieldName, targetType, refId))
                (target_ids entity fieldName))
             (fields_of entityType)))
          (case index_get entityIndex entityType of None \<Rightarrow> [] | Some entities \<Rightarrow> entities)))
       declared_types)"

section \<open>Example inputs\<close>

text \<open>The index of the test "handles bundle with partial module bumps".\<close>

definition bundle_example_entity :: Entity where
  "bundle_example_entity =
     \<lparr>props = [(''id'', Str ''Default''), (''modules'', Arr [''Core'', ''Lab''])],
      filePath = ''bundles/Default.json''\<rparr>"

definition bundle_example_index :: EntityIndex where
  "bundle_example_index =
     \<lparr>categories = [], properties = [], subobjects = [], templates = [],
      modules = [(''Core'', \<lparr>props = [(''id'', Str ''Core'')], filePath = ''modules/Core.json''\<rparr>),
                 (''Lab'', \<lparr>props = [(''id'', Str ''Lab'')], filePath = ''modules/Lab.json''\<rparr>)],
      bundles = [(''Default'', bundle_example_entity)]\<rparr>"

text \<open>
  A template in a subdirectory: its id is its path below \<open>templates/\<close>, as
  validate.js requires of nested files, and module \<open>Core\<close> lists it.
\<close>

definition nested_template_index :: EntityIndex where
  "nested_template_index =
     \<lparr>categories = [], properties = [], subobjects = [],
      templates = [(''Property/Page'',
                    \<lparr>props = [(''id'', Str ''Property/Page'')],
                     filePath = ''templates/Property/Page.json''\<rparr>)],
      modules = [(''Core'',
                  \<lparr>props = [(''id'', Str ''Core''), (''templates'', Arr [''Property/Page''])],
                   filePath = ''modules/Core.json''\<rparr>)],
      bundles = []\<rparr>"

definition nested_template_change :: ChangeRecord where
  "nested_template_change =
     \<lparr>cr_file = ''templates/Property/Page.json'', cr_entityType = ''templates'',
      cr_changeType = ''major''\<rparr>"

text \<open>
  Modules with their dependencies: \<open>Core\<close> and \<open>Lab\<close> depend on each other while
  \<open>Analysis\<close> depends on \<open>Base\<close>; and \<open>Lab\<close> depends on \<open>Core\<close> and \<open>Base\<close>.
  \<open>cycle_graph\<close> and \<open>diamond_graph\<close> are the graphs that
  \<open>buildModuleDependencyGraph\<close> returns for the two indexes.
\<close>

definition module_entity :: "string \<Rightarrow> string list \<Rightarrow> string \<times> Entity" where
  "module_entity moduleId deps =
     (moduleId, \<lparr>props = [(''id'', Str moduleId), (''dependencies'', Arr deps)],
                 filePath = ''modules/'' @ moduleId @ ''.json''\<rparr>)"

definition cycle_index :: EntityIndex where
  "cycle_index =
     \<lparr>categories = [], properties = [], subobjects = [], templates = [],
      modules = [module_entity ''Core'' [''Lab''], module_entity ''Lab'' [''Core''],
                 module_entity ''Base'' [], module_entity ''Analysis'' [''Base'']],
      bundles = []\<rparr>"

definition cycle_graph :: DepGraph where
  "cycle_graph =
     \<lparr>nodes = [''Core'', ''Lab'', ''Base'', ''Analysis''],
      outgoingEdges = [(''Core'', [''Lab'']), (''Lab'', [''Core'']), (''Base'', []),
                       (''Analysis'', [''Base''])],
      incomingEdges = [(''Core'', [''Lab'']), (''Lab'', [''Core'']), (''Base'', [''Analysis'']),
                       (''Analysis'', [])]\<rparr>"

definition diamond_index :: EntityIndex where
  "diamond_index =
     \<lparr>categories = [], properties = [], subobjects = [], templates = [],
      modules = [module_entity ''Core'' [], module_entity ''Base'' [],
                 module_entity ''Lab'' [''Core'', ''Base''], module_entity ''Solo'' []],
      bundles = []\<rparr>"

definition diamond_graph :: DepGraph where
  "diamond_graph =
     \<lparr>nodes = [''Core'', ''Base'', ''Lab'', ''Solo''],
      outgoingEdges = [(''Core'', []), (''Base'', []), (''Lab'', [''Core'', ''Base'']), (''Solo'', [])],
      incomingEdges = [(''Core'', [''Lab'']), (''Base'', [''Lab'']), (''Lab'', []), (''Solo'', [])]\<rparr>"

definition diamond_bumps :: "(string, string) js_map" where
  "diamond_bumps = [(''Core'', ''patch''), (''Base'', ''major'')]"

text \<open>
  The index of the spec's validator examples: category \<open>Agent\<close> of module \<open>Core\<close>
  names itself as a parent and requires the property \<open>Ghost\<close>, which does not exist,
  and the property \<open>Mass\<close>, which module \<open>Lab\<close> owns; \<open>Core\<close> depends on the
  modules given.
\<close>

definition agent_entity :: Entity where
  "agent_entity =
     \<lparr>props = [(''id'', Str ''Agent''), (''parents'', Arr [''Agent'']),
               (''required_properties'', Arr [''Ghost'', ''Mass''])],
      filePath = ''categories/Agent.json''\<rparr>"

definition validator_index :: "string list \<Rightarrow> EntityIndex" where
  "validator_index coreDeps =
     \<lparr>categories = [(''Agent'', agent_entity)],
      properties = [(''Mass'', \<lparr>props = [(''id'', Str ''Mass'')], filePath = ''properties/Mass.json''\<rparr>)],
      subobjects = [], templates = [],
      modules = [(''Core'', \<lparr>props = [(''id'', Str ''Core''), (''categories'', Arr [''Agent'']),
                                        (''dependencies'', Arr coreDeps)],
                               filePath = ''modules/Core.json''\<rparr>),
                 (''Lab'', \<lparr>props = [(''id'', Str ''Lab''), (''properties'', Arr [''Mass''])],
                              filePath = ''modules/Lab.json''\<rparr>)],
      bundles = []\<rparr>"

section \<open>Properties of maxBumpType and the ontology bump\<close>

lemma priority_of_simps:
  "priority_of ''major'' = 3" "priority_of ''minor'' = 2" "priority_of ''patch'' = 1"
  by (simp_all add: priority_of_def BUMP_PRIORITY_def)

lemma priority_of_cases:
  "priority_of b = (if b = ''major'' then 3 else if b = ''minor'' then 2
                    else if b = ''patch'' then 1 else 0)"
  by (simp add: priority_of_def BUMP_PRIORITY_def)

lemma maxBumpType_loop:
  assumes "acc = (''patch'', 1) \<or> acc = (''minor'', 2) \<or> acc = (''major'', 3)"
  shows "fst (foldl maxBumpType_step acc bumps) =
     (if ''major'' \<in> set bumps \<or> fst acc = ''major'' then ''major''
      else if ''minor'' \<in> set bumps \<or> fst acc = ''minor'' then ''minor''
      else ''patch'')"
  using assms
proof (induction bumps arbitrary: acc)
  case Nil
  then show ?case by auto
next
  case (Cons b bs)
  have step: "maxBumpType_step acc b = (''patch'', 1) \<or> maxBumpType_step acc b = (''minor'', 2)
      \<or> maxBumpType_step acc b = (''major'', 3)"
    using Cons.prems by (auto simp: maxBumpType_step_def priority_of_cases)
  have "fst (maxBumpType_step acc b) =
      (if b = ''major'' \<or> fst acc = ''major'' then ''major''
       else if b = ''minor'' \<or> fst acc = ''minor'' then ''minor'' else ''patch'')"
    using Cons.prems by (auto simp: maxBumpType_step_def priority_of_cases)
  with Cons.IH [OF step] show ?case by auto
qed

lemma maxBumpType_set:
  "maxBumpType bumps =
     (if ''major'' \<in> set bumps then ''major''
      else if ''minor'' \<in> set bumps then ''minor'' else ''patch'')"
proof (cases "bumps = []")
  case True
  then show ?thesis by (simp add: maxBumpType_def)
next
  case False
  then show ?thesis
    using maxBumpType_loop [of "(''patch'', 1)" bumps]
    by (simp add: maxBumpType_def priority_of_simps)
qed

lemma maxBumpType_cong_set: "set xs = set ys \<Longrightarrow> maxBumpType xs = maxBumpType ys"
  by (simp add: maxBumpType_set)

lemma maxBumpType_in_levels: "maxBumpType bumps \<in> bump_levels"
  by (simp add: maxBumpType_set bump_levels_def)

text \<open>
  C7. \<open>maxBumpType\<close> gives equal results on any two permutations of a list, is
  idempotent, returns \<open>patch\<close> on the empty list, and on a non-empty list of bump
  levels returns an element of the list whose priority no element exceeds.
\<close>

theorem maxBumpType_algebra:
  "(mset xs = mset ys \<longrightarrow> maxBumpType xs = maxBumpType ys)
   \<and> maxBumpType [x, y] = maxBumpType [y, x]
   \<and> maxBumpType [x, x] = maxBumpType [x]
   \<and> maxBumpType [] = ''patch''
   \<and> (bumps \<noteq> [] \<and> set bumps \<subseteq> bump_levels \<longrightarrow>
        maxBumpType bumps \<in> set bumps
        \<and> (\<forall>b \<in> set bumps. priority_of b \<le> priority_of (maxBumpType bumps)))"
proof -
  have perm: "mset xs = mset ys \<longrightarrow> maxBumpType xs = maxBumpType ys"
    using maxBumpType_cong_set mset_eq_setD by blast
  have comm: "maxBumpType [x, y] = maxBumpType [y, x]"
    by (rule maxBumpType_cong_set) auto
  have idem: "maxBumpType [x, x] = maxBumpType [x]"
    by (rule maxBumpType_cong_set) auto
  have empty: "maxBumpType [] = ''patch''"
    by (simp add: maxBumpType_def)
  have top: "maxBumpType bumps \<in> set bumps
      \<and> (\<forall>b \<in> set bumps. priority_of b \<le> priority_of (maxBumpType bumps))"
    if ne: "bumps \<noteq> []" and lv: "set bumps \<subseteq> bump_levels"
  proof -
    obtain b where b: "b \<in> set bumps" using ne by (cases bumps) auto
    have mem: "maxBumpType bumps \<in> set bumps"
      using b lv by (auto simp: maxBumpType_set bump_levels_def)
    have "priority_of c \<le> priority_of (maxBumpType bumps)" if "c \<in> set bumps" for c
      using that lv by (auto simp: maxBumpType_set bump_levels_def priority_of_simps)
    with mem show ?thesis by blast
  qed
  from perm comm idem empty top show ?thesis by blast
qed

theorem maxBumpType_algebra_witness:
  "maxBumpType [''patch'', ''major'', ''minor''] = maxBumpType [''minor'', ''patch'', ''major'']
   \<and> maxBumpType [''patch'', ''major'', ''minor''] = ''major''
   \<and> ''major'' \<in> set [''patch'', ''major'', ''minor'']
   \<and> priority_of ''minor'' \<le> priority_of ''major''"
proof -
  have m: "mset [''patch'', ''major'', ''minor''] = mset [''minor'', ''patch'', ''major'']"
    by (simp add: add_mset_commute)
  have l: "[''patch'', ''major'', ''minor''] \<noteq> []
      \<and> set [''patch'', ''major'', ''minor''] \<subseteq> bump_levels"
    by (simp add: bump_levels_def)
  have v: "maxBumpType [''patch'', ''major'', ''minor''] = ''major''"
    by (simp add: maxBumpType_set)
  from maxBumpType_algebra [of "[''patch'', ''major'', ''minor'']" "[''minor'', ''patch'', ''major'']"
      "''minor''" "''minor''" "[''patch'', ''major'', ''minor'']"] m l v
  show ?thesis by (simp add: priority_of_simps)
qed

text \<open>
  C6. \<open>calculateOntologyBump\<close> is \<open>maxBumpType\<close> over the \<open>changeType\<close> of every
  record, whatever module and bundle bumps it is given, and \<open>patch\<close> when the list of
  changes is empty or absent.
\<close>

theorem calculateOntologyBump_raw_changes:
  "calculateOntologyBump (Some cs) moduleBumps bundleBumps = maxBumpType (map cr_changeType cs)
   \<and> calculateOntologyBump changes moduleBumps bundleBumps
       = calculateOntologyBump changes moduleBumps' bundleBumps'
   \<and> calculateOntologyBump (Some []) moduleBumps bundleBumps = ''patch''
   \<and> calculateOntologyBump None moduleBumps bundleBumps = ''patch''"
  by (simp add: calculateOntologyBump_def maxBumpType_def)

section \<open>Bundle bumps\<close>

lemma map_of_Map_set: "map_of (Map_set m k v) = (map_of m)(k \<mapsto> v)"
  by (simp add: Map_set_def update_conv')

lemma Map_has_Map_set: "Map_has (Map_set m k v) k' = (k' = k \<or> Map_has m k')"
  by (simp add: Map_has_def map_of_Map_set)

lemma bundleBumps_step_lookup:
  "map_of (bundleBumps_step moduleBumps acc (k, e)) x =
     (if x = k \<and> member_bumps moduleBumps (or_empty (field e ''modules'')) \<noteq> []
      then Some (maxBumpType (member_bumps moduleBumps (or_empty (field e ''modules''))))
      else map_of acc x)"
  by (simp add: bundleBumps_step_def Let_def map_of_Map_set)

lemma bundleBumps_fold:
  assumes "distinct (map fst bs)"
  shows "map_of (foldl (bundleBumps_step moduleBumps) acc bs) bundleId =
     (case map_of bs bundleId of
        None \<Rightarrow> map_of acc bundleId
      | Some bundleEntity \<Rightarrow>
          (if member_bumps moduleBumps (or_empty (field bundleEntity ''modules'')) = []
           then map_of acc bundleId
           else Some (maxBumpType (member_bumps moduleBumps (or_empty (field bundleEntity ''modules''))))))"
  using assms
proof (induction bs arbitrary: acc)
  case Nil
  then show ?case by simp
next
  case (Cons b bs)
  obtain k e where b: "b = (k, e)" by (cases b)
  from Cons.prems b have notin: "map_of bs k = None" and d: "distinct (map fst bs)"
    by (auto simp: map_of_eq_None_iff)
  have ih: "map_of (foldl (bundleBumps_step moduleBumps) (bundleBumps_step moduleBumps acc (k, e)) bs) bundleId =
     (case map_of bs bundleId of
        None \<Rightarrow> map_of (bundleBumps_step moduleBumps acc (k, e)) bundleId
      | Some bundleEntity \<Rightarrow>
          (if member_bumps moduleBumps (or_empty (field bundleEntity ''modules'')) = []
           then map_of (bundleBumps_step moduleBumps acc (k, e)) bundleId
           else Some (maxBumpType (member_bumps moduleBumps (or_empty (field bundleEntity ''modules''))))))"
    by (rule Cons.IH [OF d])
  show ?case
    using ih notin unfolding b
    by (cases "bundleId = k") (simp_all add: bundleBumps_step_lookup split: option.split)
qed

lemma member_bumps_empty_iff:
  "member_bumps moduleBumps moduleIds = [] \<longleftrightarrow> (\<forall>m \<in> set moduleIds. \<not> Map_has moduleBumps m)"
  by (auto simp: member_bumps_def List.map_filter_def Map_has_def filter_empty_conv)

lemma set_member_bumps:
  "set (member_bumps moduleBumps moduleIds) = {b. \<exists>m \<in> set moduleIds. map_of moduleBumps m = Some b}"
  by (force simp: member_bumps_def List.map_filter_def)

text \<open>
  C8. A bundle of the index is in the result of \<open>calculateBundleBumps\<close> exactly when
  one of its member modules has a bump in the input map; its bump is then
  \<open>maxBumpType\<close> over the bumps of the member modules that have one (the list
  \<open>member_bumps\<close>, whose elements are exactly those bumps), never a default
  \<open>patch\<close>; and nothing but bundles of the index is in the result.
\<close>

theorem calculateBundleBumps_members:
  assumes "distinct (map fst (bundles entityIndex))"
  shows "(map_of (bundles entityIndex) bundleId = Some bundleEntity \<longrightarrow>
            (Map_has (calculateBundleBumps entityIndex moduleBumps) bundleId
               \<longleftrightarrow> (\<exists>m \<in> set (or_empty (field bundleEntity ''modules'')). Map_has moduleBumps m))
          \<and> (Map_has (calculateBundleBumps entityIndex moduleBumps) bundleId \<longrightarrow>
               map_of (calculateBundleBumps entityIndex moduleBumps) bundleId
                 = Some (maxBumpType (member_bumps moduleBumps (or_empty (field bundleEntity ''modules'')))))
          \<and> set (member_bumps moduleBumps (or_empty (field bundleEntity ''modules'')))
               = {b. \<exists>m \<in> set (or_empty (field bundleEntity ''modules'')). map_of moduleBumps m = Some b})
       \<and> (map_of (bundles entityIndex) bundleId = None \<longrightarrow>
            \<not> Map_has (calculateBundleBumps entityIndex moduleBumps) bundleId)"
  using bundleBumps_fold [OF assms, of moduleBumps "[]" bundleId]
    member_bumps_empty_iff [of moduleBumps "or_empty (field bundleEntity ''modules'')"]
  by (auto simp: calculateBundleBumps_def Map_has_def set_member_bumps)

theorem calculateBundleBumps_members_witness:
  "distinct (map fst (bundles bundle_example_index))
   \<and> map_of (bundles bundle_example_index) ''Default'' = Some bundle_example_entity
   \<and> Map_has [(''Core'', ''minor'')] ''Core''
   \<and> Map_has (calculateBundleBumps bundle_example_index [(''Core'', ''minor'')]) ''Default''
   \<and> map_of (calculateBundleBumps bundle_example_index [(''Core'', ''minor'')]) ''Default''
        = Some ''minor''
   \<and> map_of (bundles bundle_example_index) ''Other'' = None
   \<and> \<not> Map_has (calculateBundleBumps bundle_example_index [(''Core'', ''minor'')]) ''Other''"
proof -
  have d: "distinct (map fst (bundles bundle_example_index))"
    by (simp add: bundle_example_index_def)
  have m: "member_bumps [(''Core'', ''minor'')] (or_empty (field bundle_example_entity ''modules''))
      = [''minor'']"
    by (simp add: bundle_example_entity_def member_bumps_def List.map_filter_def field_def
        or_empty_def)
  from calculateBundleBumps_members [OF d, of "''Default''" bundle_example_entity "[(''Core'', ''minor'')]"]
    calculateBundleBumps_members [OF d, of "''Other''" bundle_example_entity "[(''Core'', ''minor'')]"]
    d m
  show ?thesis
    by (simp add: bundle_example_index_def bundle_example_entity_def Map_has_def field_def
        or_empty_def maxBumpType_set)
qed

section \<open>Module bumps and nested entity ids\<close>

text \<open>
  C3. The change record of the nested template has the form
  \<open><entityType>/<id>.json\<close> and module \<open>Core\<close> owns the template, but
  \<open>calculateModuleBumps\<close> looks up \<open>templates:Page\<close>, finds no module and
  attributes nothing to \<open>Core\<close>, and \<open>calculateVersionCascade\<close> lists the record
  among the orphan changes.
\<close>

theorem calculateModuleBumps_nested_id:
  "cr_file nested_template_change = ''templates'' @ ''/'' @ ''Property/Page'' @ ''.json''
   \<and> map_of (buildReverseModuleIndex nested_template_index)
         (entity_key ''templates'' ''Property/Page'') = Some ''Core''
   \<and> change_key nested_template_change = entity_key ''templates'' ''Page''
   \<and> calculateModuleBumps nested_template_index [nested_template_change] = []
   \<and> calculateVersionCascade nested_template_index (Some [nested_template_change])
       = Inr \<lparr>res_changes = [nested_template_change], res_moduleBumps = [], res_bundleBumps = [],
              res_ontologyBump = ''major'', res_orphanChanges = [nested_template_change]\<rparr>"
proof -
  have k: "change_key nested_template_change = entity_key ''templates'' ''Page''"
    by (simp add: nested_template_change_def change_key_def)
  have r: "buildReverseModuleIndex nested_template_index = [(''templates:Property/Page'', ''Core'')]"
    by (simp add: nested_template_index_def buildReverseModuleIndex_def ENTITY_TYPES_def
        or_empty_def field_def entity_key_def Map_set_def)
  have m: "calculateModuleBumps nested_template_index [nested_template_change] = []"
    by (simp add: calculateModuleBumps_def moduleBumps_step_def r k entity_key_def)
  have g: "buildModuleDependencyGraph nested_template_index
      = Inr \<lparr>nodes = [''Core''], outgoingEdges = [(''Core'', [])], incomingEdges = [(''Core'', [])]\<rparr>"
    by code_simp
  have p: "propagateDependencyCascade
      \<lparr>nodes = [''Core''], outgoingEdges = [(''Core'', [])], incomingEdges = [(''Core'', [])]\<rparr> []
      = Inr []"
    by code_simp
  have b: "calculateBundleBumps nested_template_index [] = []"
    by (simp add: calculateBundleBumps_def nested_template_index_def)
  have o: "calculateOntologyBump (Some [nested_template_change]) [] [] = ''major''"
    by (simp add: calculateOntologyBump_def nested_template_change_def maxBumpType_set)
  have c: "calculateVersionCascade nested_template_index (Some [nested_template_change])
       = Inr \<lparr>res_changes = [nested_template_change], res_moduleBumps = [], res_bundleBumps = [],
              res_ontologyBump = ''major'', res_orphanChanges = [nested_template_change]\<rparr>"
    by (simp add: calculateVersionCascade_def g m p b o r k Map_has_def entity_key_def)
  have f: "cr_file nested_template_change = ''templates'' @ ''/'' @ ''Property/Page'' @ ''.json''"
    by (simp add: nested_template_change_def)
  from f r k m c show ?thesis by (simp add: entity_key_def)
qed

section \<open>The next version\<close>

lemma digit_of_digit_char: "d < 10 \<Longrightarrow> digit_of (digit_char d) = Some d"
proof -
  assume "d < 10"
  then have "d \<in> {0, 1, 2, 3, 4, 5, 6, 7, 8, 9}" by auto
  then show ?thesis
    by (auto simp: digit_of_def digit_char_def)
qed

lemma digit_char_not_dot: "d < 10 \<Longrightarrow> digit_char d \<noteq> CHR ''.''"
proof -
  assume "d < 10"
  then have "d \<in> {0, 1, 2, 3, 4, 5, 6, 7, 8, 9}" by auto
  then show ?thesis by (auto simp: digit_char_def)
qed

lemma parse_digits_snoc:
  "parse_digits acc (xs @ [c]) =
     (case parse_digits acc xs of
        None \<Rightarrow> None
      | Some v \<Rightarrow> (case digit_of c of None \<Rightarrow> None | Some d \<Rightarrow> Some (v * 10 + d)))"
  by (induction xs arbitrary: acc) (auto split: option.splits)

lemma show_nat_nonempty: "show_nat n \<noteq> []"
  by (subst show_nat.simps) simp

lemma parse_digits_show_nat: "parse_digits 0 (show_nat n) = Some n"
proof (induction n rule: show_nat.induct)
  case (1 n)
  show ?case
  proof (cases "n < 10")
    case True
    then show ?thesis
      by (subst show_nat.simps) (simp add: digit_of_digit_char)
  next
    case False
    with "1" have ih: "parse_digits 0 (show_nat (n div 10)) = Some (n div 10)" by simp
    have "n mod 10 < 10" by simp
    then have d: "digit_of (digit_char (n mod 10)) = Some (n mod 10)"
      by (rule digit_of_digit_char)
    from False show ?thesis
      by (subst show_nat.simps) (simp add: parse_digits_snoc ih d)
  qed
qed

lemma parse_nat_show_nat: "parse_nat (show_nat n) = Some n"
  by (simp add: parse_nat_def show_nat_nonempty parse_digits_show_nat)

lemma show_nat_no_dot: "CHR ''.'' \<notin> set (show_nat n)"
proof (induction n rule: show_nat.induct)
  case (1 n)
  show ?case
  proof (cases "n < 10")
    case True
    then show ?thesis
      using digit_char_not_dot [of n] by (subst show_nat.simps) auto
  next
    case False
    have "n mod 10 < 10" by simp
    then have "digit_char (n mod 10) \<noteq> CHR ''.''" by (rule digit_char_not_dot)
    with False "1" show ?thesis
      by (subst show_nat.simps) auto
  qed
qed

lemma split_on_nonempty: "split_on c s \<noteq> []"
  by (induction s) (auto split: list.splits)

lemma split_on_no_sep: "c \<notin> set s \<Longrightarrow> split_on c s = [s]"
  by (induction s) auto

lemma split_on_append: "c \<notin> set s \<Longrightarrow> split_on c (s @ c # t) = s # split_on c t"
  by (induction s) auto

lemma parse_version_format_version:
  "parse_version (format_version (major, minor, patch)) = Some (major, minor, patch)"
proof -
  have "split_on (CHR ''.'') (format_version (major, minor, patch))
      = [show_nat major, show_nat minor, show_nat patch]"
    by (simp add: format_version_def split_on_append split_on_no_sep show_nat_no_dot)
  then show ?thesis
    by (simp add: parse_version_def parse_nat_show_nat)
qed

text \<open>
  C9. On a version that parses as three dot-separated non-negative integers
  \<open>calculateNewVersion\<close> increments the component the bump type names and zeroes the
  lower ones; the printed form of any three naturals is such a version; the three
  examples of the spec hold; and the result is the failure sentinel when the version
  is absent or does not parse, or when the bump type is absent or unrecognized.
\<close>

theorem calculateNewVersion_semver:
  "(parse_version v = Some (major, minor, patch) \<longrightarrow>
      calculateNewVersion (Some v) (Some ''major'') = Some (format_version (major + 1, 0, 0))
      \<and> calculateNewVersion (Some v) (Some ''minor'') = Some (format_version (major, minor + 1, 0))
      \<and> calculateNewVersion (Some v) (Some ''patch'') = Some (format_version (major, minor, patch + 1)))
   \<and> parse_version (format_version (a, b, c)) = Some (a, b, c)
   \<and> calculateNewVersion (Some ''1.2.3'') (Some ''patch'') = Some ''1.2.4''
   \<and> calculateNewVersion (Some ''1.2.3'') (Some ''minor'') = Some ''1.3.0''
   \<and> calculateNewVersion (Some ''1.2.3'') (Some ''major'') = Some ''2.0.0''
   \<and> (parse_version w = None \<longrightarrow> calculateNewVersion (Some w) bumpType = None)
   \<and> calculateNewVersion None bumpType = None
   \<and> calculateNewVersion version None = None
   \<and> (t \<notin> bump_levels \<longrightarrow> calculateNewVersion version (Some t) = None)"
proof -
  have ex: "calculateNewVersion (Some ''1.2.3'') (Some ''patch'') = Some ''1.2.4''"
    "calculateNewVersion (Some ''1.2.3'') (Some ''minor'') = Some ''1.3.0''"
    "calculateNewVersion (Some ''1.2.3'') (Some ''major'') = Some ''2.0.0''"
    by code_simp+
  have ok: "parse_version v = Some (major, minor, patch) \<longrightarrow>
      calculateNewVersion (Some v) (Some ''major'') = Some (format_version (major + 1, 0, 0))
      \<and> calculateNewVersion (Some v) (Some ''minor'') = Some (format_version (major, minor + 1, 0))
      \<and> calculateNewVersion (Some v) (Some ''patch'') = Some (format_version (major, minor, patch + 1))"
    by (simp add: calculateNewVersion_def)
  have bad: "parse_version w = None \<longrightarrow> calculateNewVersion (Some w) bumpType = None"
    "calculateNewVersion None bumpType = None"
    "calculateNewVersion version None = None"
    "t \<notin> bump_levels \<longrightarrow> calculateNewVersion version (Some t) = None"
    by (auto simp: calculateNewVersion_def bump_levels_def split: option.splits)
  from ok parse_version_format_version [of a b c] ex bad show ?thesis by blast
qed

theorem calculateNewVersion_semver_witness:
  "parse_version ''10.0.9'' = Some (10, 0, 9)
   \<and> calculateNewVersion (Some ''10.0.9'') (Some ''major'') = Some ''11.0.0''
   \<and> calculateNewVersion (Some ''10.0.9'') (Some ''minor'') = Some ''10.1.0''
   \<and> calculateNewVersion (Some ''10.0.9'') (Some ''patch'') = Some ''10.0.10''
   \<and> parse_version ''invalid'' = None
   \<and> calculateNewVersion (Some ''invalid'') (Some ''patch'') = None
   \<and> ''premajor'' \<notin> bump_levels
   \<and> calculateNewVersion (Some ''1.2.3'') (Some ''premajor'') = None"
proof -
  have p: "parse_version ''10.0.9'' = Some (10, 0, 9)"
    by code_simp
  have q: "parse_version ''invalid'' = None"
    by code_simp
  have l: "''premajor'' \<notin> bump_levels"
    by (simp add: bump_levels_def)
  have f: "format_version (10 + 1, 0, 0) = ''11.0.0''" "format_version (10, 0 + 1, 0) = ''10.1.0''"
    "format_version (10, 0, 9 + 1) = ''10.0.10''"
    by code_simp+
  from calculateNewVersion_semver [of "''10.0.9''" 10 0 9 0 0 0 "''invalid''" "Some ''patch''"
      "Some ''1.2.3''" "''premajor''"] p q l f
  show ?thesis by simp
qed

section \<open>The depth-first search of the graph\<close>

lemma edge_rel_Image: "map_of edges n = Some es \<Longrightarrow> edge_rel edges `` {n} = set es"
  by (auto simp: edge_rel_def)

lemma rtrancl_Image_step: "E\<^sup>* `` {n} = insert n (E\<^sup>* `` (E `` {n}))"
  by (auto intro: converse_rtrancl_into_rtrancl elim: converse_rtranclE)

lemma closed_rtrancl_Image: "E `` S \<subseteq> S \<Longrightarrow> E\<^sup>* `` S = S"
  by (rule Image_closed_trancl)

lemma for_of_DFS_sound:
  assumes step: "\<And>x s t. x \<in> set xs \<Longrightarrow> DFS_inv E s \<Longrightarrow> f x s = Inr t \<Longrightarrow>
      DFS_inv E t \<and> set t = set s \<union> E\<^sup>* `` {x} \<and> (set t - set s) \<inter> P = {}"
  shows "for_of xs f s = Inr t \<Longrightarrow> DFS_inv E s \<Longrightarrow>
      DFS_inv E t \<and> set t = set s \<union> E\<^sup>* `` set xs \<and> (set t - set s) \<inter> P = {}"
  using step
proof (induction xs arbitrary: s)
  case Nil
  then show ?case by auto
next
  case (Cons x xs)
  from Cons.prems(1) obtain s1 where s1: "f x s = Inr s1" and rest: "for_of xs f s1 = Inr t"
    by (auto split: sum.splits)
  have a: "DFS_inv E s1 \<and> set s1 = set s \<union> E\<^sup>* `` {x} \<and> (set s1 - set s) \<inter> P = {}"
    by (rule Cons.prems(3)) (simp_all add: s1 Cons.prems(2))
  then have inv1: "DFS_inv E s1" by blast
  have b: "DFS_inv E t \<and> set t = set s1 \<union> E\<^sup>* `` set xs \<and> (set t - set s1) \<inter> P = {}"
  proof (rule Cons.IH [OF rest inv1])
    fix y u v
    assume "y \<in> set xs" "DFS_inv E u" "f y u = Inr v"
    then show "DFS_inv E v \<and> set v = set u \<union> E\<^sup>* `` {y} \<and> (set v - set u) \<inter> P = {}"
      by (intro Cons.prems(3)) simp_all
  qed
  have img: "E\<^sup>* `` set (x # xs) = E\<^sup>* `` {x} \<union> E\<^sup>* `` set xs" by auto
  have a1: "set s1 = set s \<union> E\<^sup>* `` {x}" and a2: "(set s1 - set s) \<inter> P = {}"
    using a by blast+
  have b0: "DFS_inv E t" and b1: "set t = set s1 \<union> E\<^sup>* `` set xs"
    and b2: "(set t - set s1) \<inter> P = {}"
    using b by blast+
  have c1: "set t = set s \<union> E\<^sup>* `` set (x # xs)"
    unfolding b1 a1 img by (simp add: Un_assoc)
  have "set t - set s \<subseteq> (set t - set s1) \<union> (set s1 - set s)" by blast
  with a2 b2 have c2: "(set t - set s) \<inter> P = {}" by blast
  from b0 c1 c2 show ?case by blast
qed

lemma DFS_sound:
  "DFS edges path n r = Inr r' \<Longrightarrow> DFS_inv (edge_rel edges) r \<Longrightarrow>
     DFS_inv (edge_rel edges) r' \<and> set r' = set r \<union> (edge_rel edges)\<^sup>* `` {n}
     \<and> (set r' - set r) \<inter> set path = {}"
proof (induction edges path n r arbitrary: r' rule: DFS.induct)
  case (1 edges path n r)
  let ?E = "edge_rel edges"
  show ?case
  proof (cases "n \<in> set r")
    case True
    with "1.prems" have "r' = r" by (simp add: DFS.simps)
    moreover have "?E\<^sup>* `` {n} \<subseteq> set r"
    proof -
      have "?E\<^sup>* `` set r = set r"
        using "1.prems"(2) by (intro closed_rtrancl_Image) (simp add: DFS_inv_def)
      with True show ?thesis by blast
    qed
    ultimately show ?thesis using "1.prems"(2) by auto
  next
    case False
    with "1.prems"(1) have np: "n \<notin> set path"
      by (auto simp: DFS.simps [of edges path n r] split: if_splits)
    from False np "1.prems"(1) obtain es r1 where
      es: "map_of edges n = Some es" and
      loop: "for_of es (DFS edges (path @ [n])) r = Inr r1" and r': "r' = r1 @ [n]"
      by (auto simp: DFS.simps [of edges path n r] split: option.splits sum.splits)
    have kids: "DFS_inv ?E r1 \<and> set r1 = set r \<union> ?E\<^sup>* `` set es
        \<and> (set r1 - set r) \<inter> set (path @ [n]) = {}"
    proof (rule for_of_DFS_sound [OF _ loop "1.prems"(2)])
      fix x s t
      assume "x \<in> set es" "DFS_inv ?E s" "DFS edges (path @ [n]) x s = Inr t"
      then show "DFS_inv ?E t \<and> set t = set s \<union> ?E\<^sup>* `` {x} \<and> (set t - set s) \<inter> set (path @ [n]) = {}"
        using "1.IH" [OF False np es] by blast
    qed
    then have n1: "n \<notin> set r1" using False by (simp add: disjoint_iff) blast
    have img: "?E `` {n} = set es" using es by (rule edge_rel_Image)
    have reach: "?E\<^sup>* `` {n} = insert n (?E\<^sup>* `` set es)"
      using rtrancl_Image_step [of ?E n] img by simp
    have closed1: "?E `` set r1 \<subseteq> set r1" using kids unfolding DFS_inv_def by blast
    have es_sub: "set es \<subseteq> set r1" using kids by blast
    have nocyc: "(n, n) \<notin> ?E\<^sup>+"
    proof
      assume "(n, n) \<in> ?E\<^sup>+"
      then obtain c where c: "(n, c) \<in> ?E" and cn: "(c, n) \<in> ?E\<^sup>*"
        by (auto elim: converse_tranclE intro: trancl_into_rtrancl)
      from c img have "c \<in> set es" by auto
      with es_sub have "c \<in> set r1" by auto
      with cn have "n \<in> ?E\<^sup>* `` set r1" by auto
      with closed_rtrancl_Image [OF closed1] n1 show False by simp
    qed
    have sr': "set r' = insert n (set r1)" unfolding r' by simp
    have d1: "distinct r1" and ac1: "\<forall>u \<in> set r1. (u, u) \<notin> ?E\<^sup>+"
      using kids unfolding DFS_inv_def by blast+
    have "?E `` set r' \<subseteq> set r'"
      using closed1 img es_sub unfolding sr' by blast
    moreover have "\<forall>u \<in> set r'. (u, u) \<notin> ?E\<^sup>+"
      using ac1 nocyc unfolding sr' by blast
    moreover have "distinct r'"
      using d1 n1 unfolding r' by simp
    ultimately have inv': "DFS_inv ?E r'" by (simp add: DFS_inv_def)
    have sr1: "set r1 = set r \<union> ?E\<^sup>* `` set es" using kids by blast
    have set': "set r' = set r \<union> ?E\<^sup>* `` {n}"
      unfolding sr' sr1 reach by blast
    have "(set r1 - set r) \<inter> set (path @ [n]) = {}" using kids by blast
    then have disj: "(set r' - set r) \<inter> set path = {}"
      using np unfolding sr' by auto
    from inv' set' disj show ?thesis by blast
  qed
qed

lemma for_of_Inl:
  "for_of xs f s = Inl e \<Longrightarrow> \<exists>x \<in> set xs. \<exists>u. f x u = Inl e"
proof (induction xs arbitrary: s)
  case Nil
  then show ?case by simp
next
  case (Cons x xs)
  show ?case
  proof (cases "f x s")
    case (Inl e')
    with Cons.prems show ?thesis by auto
  next
    case (Inr s1)
    with Cons.prems have "for_of xs f s1 = Inl e" by simp
    from Cons.IH [OF this] show ?thesis by auto
  qed
qed

lemma map_of_dom_Some: "n \<in> fst ` set edges \<Longrightarrow> \<exists>es. map_of edges n = Some es"
  by (cases "map_of edges n") (auto simp: map_of_eq_None_iff)

lemma DFS_error:
  "DFS edges path n r = Inl e \<Longrightarrow> targets_ok edges \<Longrightarrow> n \<in> fst ` set edges \<Longrightarrow>
     \<forall>p \<in> set path. (p, n) \<in> (edge_rel edges)\<^sup>+ \<Longrightarrow>
     (\<exists>p. e = DepGraphCycleError p)
     \<and> (\<exists>m. (n, m) \<in> (edge_rel edges)\<^sup>* \<and> (m, m) \<in> (edge_rel edges)\<^sup>+)"
proof (induction edges path n r rule: DFS.induct)
  case (1 edges path n r)
  let ?E = "edge_rel edges"
  from "1.prems"(1) have nr: "n \<notin> set r"
    by (auto simp: DFS.simps [of edges path n r] split: if_splits)
  show ?case
  proof (cases "n \<in> set path")
    case True
    with nr "1.prems"(1) have "e = DepGraphCycleError (path @ [n])"
      by (simp add: DFS.simps [of edges path n r])
    moreover from True "1.prems"(4) have "(n, n) \<in> ?E\<^sup>+" by blast
    ultimately show ?thesis by blast
  next
    case False
    from map_of_dom_Some [OF "1.prems"(3)] obtain es where es: "map_of edges n = Some es" ..
    with nr False "1.prems"(1) have "for_of es (DFS edges (path @ [n])) r = Inl e"
      by (auto simp: DFS.simps [of edges path n r] split: sum.splits)
    from for_of_Inl [OF this]
    obtain x u where x: "x \<in> set es" and xu: "DFS edges (path @ [n]) x u = Inl e"
      by blast
    from x es have nx: "(n, x) \<in> ?E" by (auto simp: edge_rel_def)
    with "1.prems"(2) have xd: "x \<in> fst ` set edges"
      unfolding targets_ok_def by blast
    have px: "\<forall>p \<in> set (path @ [n]). (p, x) \<in> ?E\<^sup>+"
      using "1.prems"(4) nx by (auto intro: trancl_into_trancl)
    from "1.IH" [OF nr False es x xu "1.prems"(2) xd px]
    obtain m where k: "\<exists>p. e = DepGraphCycleError p" and m: "(x, m) \<in> ?E\<^sup>*" "(m, m) \<in> ?E\<^sup>+"
      by blast
    from nx m(1) have "(n, m) \<in> ?E\<^sup>*" by (rule converse_rtrancl_into_rtrancl)
    with k m(2) show ?thesis by blast
  qed
qed

lemma DFS_inv_Nil: "DFS_inv E []"
  by (simp add: DFS_inv_def)

lemma trancl_Image_acyclic:
  "(n, n) \<notin> E\<^sup>+ \<Longrightarrow> E\<^sup>* `` {n} - {n} = E\<^sup>+ `` {n}"
  by (auto simp: rtrancl_eq_or_trancl)

text \<open>What \<open>dependenciesOf\<close> returns for a node of a well-formed graph.\<close>

lemma dependenciesOf_cases:
  assumes wf: "wf_graph g" and n: "n \<in> set (nodes g)"
  shows "if \<exists>m. (n, m) \<in> (dependsOn g)\<^sup>* \<and> (m, m) \<in> (dependsOn g)\<^sup>+
         then \<exists>p. dependenciesOf g n = Inl (DepGraphCycleError p)
         else \<exists>ds. dependenciesOf g n = Inr ds \<and> set ds = (dependsOn g)\<^sup>+ `` {n} \<and> distinct ds"
proof -
  let ?out = "outgoingEdges g"
  let ?E = "edge_rel ?out"
  have t: "targets_ok ?out" and d: "n \<in> fst ` set ?out"
    using wf n by (simp_all add: wf_graph_def)
  have h: "hasNode g n" using n by (simp add: hasNode_def)
  show ?thesis
  proof (cases "DFS ?out [] n []")
    case (Inl e)
    from DFS_error [OF Inl t d] have "(\<exists>p. e = DepGraphCycleError p)"
      and "\<exists>m. (n, m) \<in> ?E\<^sup>* \<and> (m, m) \<in> ?E\<^sup>+"
      by simp_all
    with Inl h show ?thesis
      by (auto simp: dependenciesOf_def dependsOn_def)
  next
    case (Inr r)
    from DFS_sound [OF Inr DFS_inv_Nil]
    have inv: "DFS_inv ?E r" and sr: "set r = ?E\<^sup>* `` {n}" by simp_all
    have nocyc: "\<not> (\<exists>m. (n, m) \<in> ?E\<^sup>* \<and> (m, m) \<in> ?E\<^sup>+)"
      using inv sr unfolding DFS_inv_def by blast
    then have "(n, n) \<notin> ?E\<^sup>+" by blast
    then have "?E\<^sup>* `` {n} - {n} = ?E\<^sup>+ `` {n}" by (rule trancl_Image_acyclic)
    moreover have "distinct r" using inv by (simp add: DFS_inv_def)
    ultimately have "set (remove1 n r) = ?E\<^sup>+ `` {n}" "distinct (remove1 n r)"
      using sr by simp_all
    with Inr h nocyc show ?thesis
      by (simp add: dependenciesOf_def dependsOn_def)
  qed
qed

lemma DFS_top_sound:
  assumes "for_of keys (DFS edges []) [] = Inr r"
  shows "DFS_inv (edge_rel edges) r \<and> set r = (edge_rel edges)\<^sup>* `` set keys"
proof -
  have "DFS_inv (edge_rel edges) r \<and> set r = set [] \<union> (edge_rel edges)\<^sup>* `` set keys
      \<and> (set r - set []) \<inter> {} = {}"
  proof (rule for_of_DFS_sound [OF _ assms DFS_inv_Nil])
    fix x s t
    assume "x \<in> set keys" "DFS_inv (edge_rel edges) s" "DFS edges [] x s = Inr t"
    from DFS_sound [OF this(3) this(2)]
    show "DFS_inv (edge_rel edges) t \<and> set t = set s \<union> (edge_rel edges)\<^sup>* `` {x}
        \<and> (set t - set s) \<inter> {} = {}"
      by simp
  qed
  then show ?thesis by simp
qed

lemma DFS_top_error:
  assumes "for_of keys (DFS edges []) [] = Inl e" "targets_ok edges" "set keys \<subseteq> fst ` set edges"
  shows "(\<exists>p. e = DepGraphCycleError p) \<and> (\<exists>m. (m, m) \<in> (edge_rel edges)\<^sup>+)"
proof -
  from for_of_Inl [OF assms(1)] obtain x u where x: "x \<in> set keys" and xu: "DFS edges [] x u = Inl e"
    by blast
  from x assms(3) have "x \<in> fst ` set edges" by blast
  from DFS_error [OF xu assms(2) this] show ?thesis by auto
qed

lemma edge_rel_Domain: "Domain (edge_rel edges) \<subseteq> fst ` set edges"
  by (auto simp: edge_rel_def dest!: map_of_SomeD intro: rev_image_eqI)

lemma overallOrder_cycle:
  assumes wf: "wf_graph g" and cyc: "has_cycle g"
  shows "\<exists>p. overallOrder g = Inl (DepGraphCycleError p)"
proof -
  let ?out = "outgoingEdges g"
  let ?E = "edge_rel ?out"
  from cyc obtain n where n: "(n, n) \<in> ?E\<^sup>+" by (auto simp: has_cycle_def dependsOn_def)
  then have "n \<in> Domain ?E" by (auto elim: converse_tranclE)
  with edge_rel_Domain have "n \<in> fst ` set ?out" by blast
  with wf have nn: "n \<in> set (nodes g)" by (simp add: wf_graph_def)
  then have ne: "length (nodes g) \<noteq> 0" by auto
  have t: "targets_ok ?out" and k: "set (nodes g) \<subseteq> fst ` set ?out"
    using wf by (simp_all add: wf_graph_def)
  show ?thesis
  proof (cases "for_of (nodes g) (DFS ?out []) []")
    case (Inl e)
    from DFS_top_error [OF Inl t k] obtain p where "e = DepGraphCycleError p" by blast
    with Inl ne show ?thesis by (simp add: overallOrder_def)
  next
    case (Inr r)
    from DFS_top_sound [OF Inr] have inv: "DFS_inv ?E r" and sr: "set r = ?E\<^sup>* `` set (nodes g)"
      by simp_all
    from nn sr have "n \<in> set r" by blast
    with inv n show ?thesis unfolding DFS_inv_def by blast
  qed
qed

lemma entry_nodes_loop:
  assumes "set keys \<subseteq> fst ` set inc"
  shows "for_of keys
       (\<lambda>node acc. case map_of inc node of
                      None \<Rightarrow> Inl TypeError
                    | Some es \<Rightarrow> Inr (if length es = 0 then acc @ [node] else acc))
       acc0 = Inr (acc0 @ filter (\<lambda>node. map_of inc node = Some []) keys)"
  using assms
proof (induction keys arbitrary: acc0)
  case Nil
  then show ?case by simp
next
  case (Cons k keys)
  then have "k \<in> fst ` set inc" by simp
  from map_of_dom_Some [OF this] obtain es where es: "map_of inc k = Some es" ..
  from Cons.prems have sub: "set keys \<subseteq> fst ` set inc" by simp
  show ?case
    by (simp add: es Cons.IH [OF sub])
qed

lemma entry_nodes_eq:
  assumes "wf_graph g"
  shows "entry_nodes g (nodes g) = Inr (filter (\<lambda>node. map_of (incomingEdges g) node = Some []) (nodes g))"
proof -
  have "set (nodes g) \<subseteq> fst ` set (incomingEdges g)"
    using assms by (simp add: wf_graph_def)
  from entry_nodes_loop [OF this, of "[]"] show ?thesis
    by (simp add: entry_nodes_def)
qed

lemma entry_iff:
  assumes wf: "wf_graph g" and n: "n \<in> set (nodes g)"
  shows "map_of (incomingEdges g) n = Some [] \<longleftrightarrow> (\<forall>m. (m, n) \<notin> dependsOn g)"
proof -
  from wf n have "n \<in> fst ` set (incomingEdges g)" by (simp add: wf_graph_def)
  from map_of_dom_Some [OF this] obtain es where es: "map_of (incomingEdges g) n = Some es" ..
  have "edge_rel (incomingEdges g) `` {n} = set es" using es by (rule edge_rel_Image)
  moreover have "edge_rel (incomingEdges g) = (dependsOn g)\<inverse>"
    using wf by (simp add: wf_graph_def dependsOn_def)
  ultimately have "set es = {m. (m, n) \<in> dependsOn g}" by auto
  with es show ?thesis by auto
qed

lemma dependsOn_nodes:
  assumes "wf_graph g"
  shows "dependsOn g \<subseteq> set (nodes g) \<times> set (nodes g)"
proof -
  have "Domain (dependsOn g) \<subseteq> set (nodes g)"
    using assms edge_rel_Domain [of "outgoingEdges g"] by (simp add: wf_graph_def dependsOn_def)
  moreover have "Range (dependsOn g) \<subseteq> set (nodes g)"
    using assms unfolding wf_graph_def dependsOn_def targets_ok_def by blast
  ultimately show ?thesis by (auto simp: Domain_iff Range_iff subset_iff)
qed

lemma reachable_from_entry:
  assumes wf: "wf_graph g" and ac: "\<not> has_cycle g" and n: "n \<in> set (nodes g)"
  shows "\<exists>r \<in> set (nodes g). map_of (incomingEdges g) r = Some [] \<and> (r, n) \<in> (dependsOn g)\<^sup>*"
proof -
  let ?E = "dependsOn g"
  have "finite ?E"
    using dependsOn_nodes [OF wf] by (rule finite_subset) simp
  moreover have "acyclic ?E" using ac by (simp add: acyclic_def has_cycle_def)
  ultimately have "wf ?E" by (rule finite_acyclic_wf)
  then have "n \<in> set (nodes g) \<longrightarrow>
      (\<exists>r \<in> set (nodes g). map_of (incomingEdges g) r = Some [] \<and> (r, n) \<in> ?E\<^sup>*)"
  proof (induction n rule: wf_induct_rule)
    case (less x)
    show ?case
    proof
      assume x: "x \<in> set (nodes g)"
      show "\<exists>r \<in> set (nodes g). map_of (incomingEdges g) r = Some [] \<and> (r, x) \<in> ?E\<^sup>*"
      proof (cases "\<exists>m. (m, x) \<in> ?E")
        case False
        with entry_iff [OF wf x] x show ?thesis by blast
      next
        case True
        then obtain m where m: "(m, x) \<in> ?E" ..
        with dependsOn_nodes [OF wf] have "m \<in> set (nodes g)" by blast
        with less [OF m] obtain r where "r \<in> set (nodes g)" "map_of (incomingEdges g) r = Some []"
          "(r, m) \<in> ?E\<^sup>*" by blast
        with m show ?thesis by (blast intro: rtrancl_into_rtrancl)
      qed
    qed
  qed
  with n show ?thesis by blast
qed

lemma overallOrder_acyclic:
  assumes wf: "wf_graph g" and ac: "\<not> has_cycle g"
  shows "\<exists>order. overallOrder g = Inr order \<and> set order = set (nodes g) \<and> distinct order"
proof (cases "length (nodes g) = 0")
  case True
  then show ?thesis by (simp add: overallOrder_def)
next
  case False
  let ?out = "outgoingEdges g"
  let ?E = "edge_rel ?out"
  let ?entries = "filter (\<lambda>node. map_of (incomingEdges g) node = Some []) (nodes g)"
  have t: "targets_ok ?out" and k: "set (nodes g) \<subseteq> fst ` set ?out"
    using wf by (simp_all add: wf_graph_def)
  have nocyc: "\<And>m. (m, m) \<notin> ?E\<^sup>+" using ac by (simp add: has_cycle_def dependsOn_def)
  obtain cr where cr: "for_of (nodes g) (DFS ?out []) [] = Inr cr"
  proof (cases "for_of (nodes g) (DFS ?out []) []")
    case (Inl e)
    from DFS_top_error [OF Inl t k] nocyc show ?thesis by blast
  next
    case (Inr r)
    then show ?thesis by (rule that)
  qed
  have ek: "set ?entries \<subseteq> fst ` set ?out" using k by auto
  obtain order where order: "for_of ?entries (DFS ?out []) [] = Inr order"
  proof (cases "for_of ?entries (DFS ?out []) []")
    case (Inl e)
    from DFS_top_error [OF Inl t ek] nocyc show ?thesis by blast
  next
    case (Inr r)
    then show ?thesis by (rule that)
  qed
  from DFS_top_sound [OF order] have inv: "DFS_inv ?E order" and so: "set order = ?E\<^sup>* `` set ?entries"
    by simp_all
  have sub: "?E \<subseteq> set (nodes g) \<times> set (nodes g)"
    using dependsOn_nodes [OF wf] by (simp add: dependsOn_def)
  have "set order \<subseteq> set (nodes g)"
  proof
    fix x assume "x \<in> set order"
    with so obtain r where r: "r \<in> set ?entries" and rx: "(r, x) \<in> ?E\<^sup>*" by blast
    from rx show "x \<in> set (nodes g)"
    proof (cases rule: rtranclE)
      case base
      with r show ?thesis by simp
    next
      case (step y)
      with sub show ?thesis by blast
    qed
  qed
  moreover have "set (nodes g) \<subseteq> set order"
  proof
    fix x assume "x \<in> set (nodes g)"
    from reachable_from_entry [OF wf ac this] obtain r where "r \<in> set (nodes g)"
      "map_of (incomingEdges g) r = Some []" "(r, x) \<in> ?E\<^sup>*"
      by (auto simp: dependsOn_def)
    then show "x \<in> set order" unfolding so by auto
  qed
  moreover have "distinct order" using inv by (simp add: DFS_inv_def)
  moreover have "overallOrder g = Inr order"
    using False cr order by (simp add: overallOrder_def entry_nodes_eq [OF wf])
  ultimately show ?thesis by blast
qed

section \<open>The loop of the cascade\<close>

lemma maxBumpType_max_of: "maxBumpType xs = max_of (set xs)"
  by (simp add: maxBumpType_set max_of_def)

lemma is_cycle_error_DepGraphCycleError: "is_cycle_error (DepGraphCycleError p)"
proof -
  have "sublist ''Dependency Cycle Found'' ([] @ ''Dependency Cycle Found'' @ ('': '' @ join '' -> '' p))"
    by (rule sublist_appendI)
  then show ?thesis by (simp add: is_cycle_error_def truthy_def)
qed

lemma max_of_eqI:
  assumes "''major'' \<in> A \<longleftrightarrow> ''major'' \<in> B"
    and "''minor'' \<in> A \<Longrightarrow> ''minor'' \<in> B"
    and "''minor'' \<in> B \<Longrightarrow> ''minor'' \<in> A \<or> ''major'' \<in> A"
  shows "max_of A = max_of B"
  using assms by (auto simp: max_of_def)

lemma cascade_module_eq:
  "cascade_module g m cb =
     (case dependenciesOf g m of
        Inl err \<Rightarrow> Inl err
      | Inr ds \<Rightarrow>
          if member_bumps cb ds = [] then Inr cb
          else Inr (Map_set cb m (max_of ({c. map_of cb m = Some c} \<union> set (member_bumps cb ds)))))"
proof (cases "dependenciesOf g m")
  case (Inl e)
  then show ?thesis by (simp add: cascade_module_def)
next
  case (Inr ds)
  let ?S = "set (member_bumps cb ds)"
  have a: "max_of ?S = max_of ({c. map_of cb m = Some c} \<union> ?S)" if "map_of cb m = None"
    using that by simp
  have b: "maxBumpType [c, max_of ?S] = max_of ({c. map_of cb m = Some c} \<union> ?S)"
    if "map_of cb m = Some c" for c
  proof -
    have "{c'. map_of cb m = Some c'} = {c}" using that by auto
    then show ?thesis by (auto simp: maxBumpType_max_of max_of_def)
  qed
  have c: "max_of ?S = max_of ({c. map_of cb m = Some c} \<union> ?S)"
    if "map_of cb m = Some c" "\<not> truthy c" for c
  proof -
    have "{c'. map_of cb m = Some c'} = {[]}" using that by (auto simp: truthy_def)
    then show ?thesis by (auto simp: max_of_def)
  qed
  show ?thesis
    using Inr a b c
    by (auto simp: cascade_module_def Let_def maxBumpType_max_of split: option.splits)
qed

lemma cascaded_major:
  "cascaded g bumps x = Some ''major'' \<longleftrightarrow> ''major'' \<in> own_values bumps x \<union> dep_values g bumps x"
  by (auto simp: cascaded_def max_of_def own_values_def)

lemma cascaded_minor:
  "cascaded g bumps x = Some ''minor'' \<longleftrightarrow>
     ''major'' \<notin> own_values bumps x \<union> dep_values g bumps x
     \<and> ''minor'' \<in> own_values bumps x \<union> dep_values g bumps x"
  by (auto simp: cascaded_def max_of_def own_values_def)

lemma cascaded_None:
  "cascaded g bumps x = None \<longleftrightarrow> own_values bumps x \<union> dep_values g bumps x = {}"
  by (auto simp: cascaded_def own_values_def)

lemma dep_values_trans:
  assumes "(m, d) \<in> (dependsOn g)\<^sup>+"
  shows "own_values bumps d \<union> dep_values g bumps d \<subseteq> dep_values g bumps m"
  using assms by (auto simp: own_values_def dep_values_def intro: trancl_trans)

lemma dep_values_Union:
  "dep_values g bumps m = (\<Union>d \<in> (dependsOn g)\<^sup>+ `` {m}. own_values bumps d)"
  by (auto simp: own_values_def dep_values_def)

lemma inv_major_D:
  assumes "cascade_inv g bumps cb" "map_of cb x = Some ''major''"
  shows "''major'' \<in> own_values bumps x \<union> dep_values g bumps x"
proof -
  from assms(1) have "map_of cb x = map_of bumps x \<or> map_of cb x = cascaded g bumps x"
    by (simp add: cascade_inv_def)
  then show ?thesis
  proof
    assume "map_of cb x = map_of bumps x"
    with assms(2) show ?thesis by (simp add: own_values_def)
  next
    assume "map_of cb x = cascaded g bumps x"
    with assms(2) have "cascaded g bumps x = Some ''major''" by simp
    then show ?thesis by (simp add: cascaded_major)
  qed
qed

lemma inv_minor_D:
  assumes "cascade_inv g bumps cb" "map_of cb x = Some ''minor''"
  shows "''minor'' \<in> own_values bumps x \<union> dep_values g bumps x"
proof -
  from assms(1) have "map_of cb x = map_of bumps x \<or> map_of cb x = cascaded g bumps x"
    by (simp add: cascade_inv_def)
  then show ?thesis
  proof
    assume "map_of cb x = map_of bumps x"
    with assms(2) show ?thesis by (simp add: own_values_def)
  next
    assume "map_of cb x = cascaded g bumps x"
    with assms(2) have "cascaded g bumps x = Some ''minor''" by simp
    then show ?thesis by (simp add: cascaded_minor)
  qed
qed

lemma inv_major_I:
  assumes "cascade_inv g bumps cb" "''major'' \<in> own_values bumps x"
  shows "map_of cb x = Some ''major''"
proof -
  from assms(1) have "map_of cb x = map_of bumps x \<or> map_of cb x = cascaded g bumps x"
    by (simp add: cascade_inv_def)
  moreover from assms(2) have "map_of bumps x = Some ''major''" by (simp add: own_values_def)
  moreover from assms(2) have "cascaded g bumps x = Some ''major''" by (simp add: cascaded_major)
  ultimately show ?thesis by auto
qed

lemma inv_minor_I:
  assumes "cascade_inv g bumps cb" "''minor'' \<in> own_values bumps x"
  shows "map_of cb x = Some ''minor'' \<or> map_of cb x = Some ''major''"
proof -
  from assms(1) have "map_of cb x = map_of bumps x \<or> map_of cb x = cascaded g bumps x"
    by (simp add: cascade_inv_def)
  moreover from assms(2) have "map_of bumps x = Some ''minor''" by (simp add: own_values_def)
  moreover from assms(2) have "cascaded g bumps x = Some ''minor'' \<or> cascaded g bumps x = Some ''major''"
    by (auto simp: cascaded_def max_of_def own_values_def)
  ultimately show ?thesis by auto
qed

lemma inv_Some_I:
  assumes "cascade_inv g bumps cb" "b \<in> own_values bumps x"
  shows "\<exists>v. map_of cb x = Some v"
proof -
  from assms(1) have "map_of cb x = map_of bumps x \<or> map_of cb x = cascaded g bumps x"
    by (simp add: cascade_inv_def)
  moreover from assms(2) have "map_of bumps x = Some b" by (simp add: own_values_def)
  moreover from assms(2) have "cascaded g bumps x \<noteq> None" by (auto simp: cascaded_None)
  ultimately show ?thesis by auto
qed

lemma inv_Some_D:
  assumes "cascade_inv g bumps cb" "map_of cb x = Some v"
  shows "own_values bumps x \<union> dep_values g bumps x \<noteq> {}"
proof -
  from assms(1) have "map_of cb x = map_of bumps x \<or> map_of cb x = cascaded g bumps x"
    by (simp add: cascade_inv_def)
  then show ?thesis
  proof
    assume "map_of cb x = map_of bumps x"
    with assms(2) show ?thesis by (auto simp: own_values_def)
  next
    assume "map_of cb x = cascaded g bumps x"
    with assms(2) have "cascaded g bumps x \<noteq> None" by simp
    then show ?thesis by (simp add: cascaded_None)
  qed
qed

lemma cascade_module_step:
  assumes wf: "wf_graph g" and ac: "\<not> has_cycle g" and m: "m \<in> set (nodes g)"
    and inv: "cascade_inv g bumps cb"
  shows "\<exists>cb'. cascade_module g m cb = Inr cb' \<and> map_of cb' = (map_of cb)(m := cascaded g bumps m)"
proof -
  let ?T = "(dependsOn g)\<^sup>+ `` {m}"
  let ?DV = "dep_values g bumps m"
  from ac have "\<not> (\<exists>x. (m, x) \<in> (dependsOn g)\<^sup>* \<and> (x, x) \<in> (dependsOn g)\<^sup>+)"
    by (auto simp: has_cycle_def)
  with dependenciesOf_cases [OF wf m] obtain ds where
    ds: "dependenciesOf g m = Inr ds" and sds: "set ds = ?T"
    by auto
  let ?S = "set (member_bumps cb ds)"
  have S: "?S = {b. \<exists>d \<in> ?T. map_of cb d = Some b}"
    by (simp add: set_member_bumps sds)
  have sub: "own_values bumps d \<union> dep_values g bumps d \<subseteq> ?DV" if "d \<in> ?T" for d
    using that dep_values_trans [of m d g bumps] by simp
  have empty: "?S = {} \<longleftrightarrow> ?DV = {}"
  proof
    assume e: "?S = {}"
    show "?DV = {}"
    proof (rule ccontr)
      assume "?DV \<noteq> {}"
      then obtain d b where d: "d \<in> ?T" and b: "b \<in> own_values bumps d"
        by (auto simp: dep_values_Union)
      from inv_Some_I [OF inv b] obtain v where "map_of cb d = Some v" ..
      with d S have "v \<in> ?S" by blast
      with e show False by simp
    qed
  next
    assume e: "?DV = {}"
    show "?S = {}"
    proof (rule ccontr)
      assume "?S \<noteq> {}"
      then obtain v where "v \<in> ?S" by (cases "member_bumps cb ds") auto
      with S obtain d where d: "d \<in> ?T" and v: "map_of cb d = Some v"
        by blast
      from inv_Some_D [OF inv v] sub [OF d] e show False by blast
    qed
  qed
  show ?thesis
  proof (cases "?DV = {}")
    case True
    with empty have "member_bumps cb ds = []" by simp
    then have r: "cascade_module g m cb = Inr cb" by (simp add: cascade_module_eq ds)
    from True have "cascaded g bumps m = map_of bumps m" by (simp add: cascaded_def)
    moreover from inv have "map_of cb m = map_of bumps m \<or> map_of cb m = cascaded g bumps m"
      by (simp add: cascade_inv_def)
    ultimately have "map_of cb m = cascaded g bumps m" by auto
    then have "map_of cb = (map_of cb)(m := cascaded g bumps m)" by auto
    with r show ?thesis by blast
  next
    case False
    with empty have ne: "member_bumps cb ds \<noteq> []" by simp
    let ?A = "{c. map_of cb m = Some c} \<union> ?S"
    let ?B = "own_values bumps m \<union> ?DV"
    from ne have r: "cascade_module g m cb = Inr (Map_set cb m (max_of ?A))"
      by (simp add: cascade_module_eq ds)
    have AB_major: "''major'' \<in> ?A \<Longrightarrow> ''major'' \<in> ?B"
      using inv_major_D [OF inv] sub S by blast
    have AB_minor: "''minor'' \<in> ?A \<Longrightarrow> ''minor'' \<in> ?B"
      using inv_minor_D [OF inv] sub S by blast
    have BA_major: "''major'' \<in> ?A" if "''major'' \<in> ?B"
    proof -
      from that consider "''major'' \<in> own_values bumps m"
        | d where "d \<in> ?T" "''major'' \<in> own_values bumps d"
        by (auto simp: dep_values_Union)
      then show ?thesis
      proof cases
        case 1
        from inv_major_I [OF inv 1] show ?thesis by simp
      next
        case 2
        from inv_major_I [OF inv 2(2)] 2(1) S show ?thesis by blast
      qed
    qed
    have BA_minor: "''minor'' \<in> ?A \<or> ''major'' \<in> ?A" if "''minor'' \<in> ?B"
    proof -
      from that consider "''minor'' \<in> own_values bumps m"
        | d where "d \<in> ?T" "''minor'' \<in> own_values bumps d"
        by (auto simp: dep_values_Union)
      then show ?thesis
      proof cases
        case 1
        from inv_minor_I [OF inv 1] show ?thesis by auto
      next
        case 2
        from inv_minor_I [OF inv 2(2)] 2(1) S show ?thesis by blast
      qed
    qed
    have "max_of ?A = max_of ?B"
      using AB_major BA_major AB_minor BA_minor by (intro max_of_eqI) blast+
    moreover from False have "cascaded g bumps m = Some (max_of ?B)" by (simp add: cascaded_def)
    ultimately have "map_of (Map_set cb m (max_of ?A)) = (map_of cb)(m := cascaded g bumps m)"
      by (simp add: map_of_Map_set)
    with r show ?thesis by blast
  qed
qed

lemma cascade_inv_update:
  assumes "cascade_inv g bumps cb" "map_of cb' = (map_of cb)(m := cascaded g bumps m)"
  shows "cascade_inv g bumps cb'"
  using assms by (simp add: cascade_inv_def)

lemma cascade_loop_acyclic:
  assumes wf: "wf_graph g" and ac: "\<not> has_cycle g"
  shows "set order \<subseteq> set (nodes g) \<Longrightarrow> cascade_inv g bumps cb \<Longrightarrow>
     \<exists>res. cascade_loop g order cb = (None, res)
       \<and> (\<forall>x. map_of res x = (if x \<in> set order then cascaded g bumps x else map_of cb x))"
proof (induction order arbitrary: cb)
  case Nil
  then show ?case by simp
next
  case (Cons m order)
  from Cons.prems have m: "m \<in> set (nodes g)" and sub: "set order \<subseteq> set (nodes g)" by simp_all
  from cascade_module_step [OF wf ac m Cons.prems(2)] obtain cb' where
    step: "cascade_module g m cb = Inr cb'" and cb': "map_of cb' = (map_of cb)(m := cascaded g bumps m)"
    by blast
  from cascade_inv_update [OF Cons.prems(2) cb'] have inv': "cascade_inv g bumps cb'" .
  from Cons.IH [OF sub inv'] obtain res where
    res: "cascade_loop g order cb' = (None, res)"
    and val: "\<forall>x. map_of res x = (if x \<in> set order then cascaded g bumps x else map_of cb' x)"
    by blast
  have "cascade_loop g (m # order) cb = (None, res)" using step res by simp
  moreover have "\<forall>x. map_of res x = (if x \<in> set (m # order) then cascaded g bumps x else map_of cb x)"
    using val cb' by auto
  ultimately show ?case by blast
qed

lemma cascade_inv_init: "cascade_inv g bumps bumps"
  by (simp add: cascade_inv_def)

lemma cascaded_outside_nodes:
  assumes "wf_graph g" "x \<notin> set (nodes g)"
  shows "cascaded g bumps x = map_of bumps x"
proof -
  have "dep_values g bumps x = {}"
  proof (rule ccontr)
    assume "dep_values g bumps x \<noteq> {}"
    then obtain d where "(x, d) \<in> (dependsOn g)\<^sup>+" by (auto simp: dep_values_def)
    then have "x \<in> Domain (dependsOn g)" by (auto elim: converse_tranclE)
    with dependsOn_nodes [OF assms(1)] assms(2) show False by blast
  qed
  then show ?thesis by (simp add: cascaded_def)
qed

lemma propagate_acyclic:
  assumes wf: "wf_graph g" and ac: "\<not> has_cycle g"
  shows "\<exists>res. propagateDependencyCascade g bumps = Inr res \<and> map_of res = cascaded g bumps"
proof -
  from overallOrder_acyclic [OF wf ac] obtain order where
    order: "overallOrder g = Inr order" and so: "set order = set (nodes g)" by blast
  from so have "set order \<subseteq> set (nodes g)" by simp
  from cascade_loop_acyclic [OF wf ac this cascade_inv_init, of bumps] obtain res where
    res: "cascade_loop g order bumps = (None, res)"
    and val: "\<forall>x. map_of res x = (if x \<in> set order then cascaded g bumps x else map_of bumps x)"
    by blast
  have "map_of res x = cascaded g bumps x" for x
    using val so cascaded_outside_nodes [OF wf, of x bumps] by auto
  then have "map_of res = cascaded g bumps" by auto
  moreover have "propagateDependencyCascade g bumps = Inr res"
    using order res by (simp add: propagateDependencyCascade_def)
  ultimately show ?thesis by blast
qed

lemma propagate_cycle:
  assumes wf: "wf_graph g" and cyc: "has_cycle g"
  shows "propagateDependencyCascade g bumps = Inr bumps"
proof -
  from overallOrder_cycle [OF wf cyc] obtain p where "overallOrder g = Inl (DepGraphCycleError p)" ..
  then show ?thesis
    by (simp add: propagateDependencyCascade_def is_cycle_error_DepGraphCycleError)
qed

section \<open>The graph of an entity index\<close>

lemma dom_Map_set: "fst ` set (Map_set m k v) = insert k (fst ` set m)"
  by (simp add: Map_set_def dom_update)

lemma edge_rel_Map_set:
  "edge_rel (Map_set edges a es) = {(x, y). (x, y) \<in> edge_rel edges \<and> x \<noteq> a} \<union> {a} \<times> set es"
  by (auto simp: edge_rel_def map_of_Map_set split: if_splits)

lemma edge_rel_Map_set_new:
  assumes "a \<notin> fst ` set edges"
  shows "edge_rel (Map_set edges a []) = edge_rel edges"
proof -
  have "x \<noteq> a" if "(x, y) \<in> edge_rel edges" for x y
    using that assms edge_rel_Domain [of edges] by blast
  then show ?thesis by (auto simp: edge_rel_Map_set)
qed

lemma wf_graph_new: "wf_graph new_DepGraph"
  by (simp add: wf_graph_def new_DepGraph_def targets_ok_def edge_rel_def)

lemma wf_graph_addNode:
  assumes "wf_graph g"
  shows "wf_graph (addNode g n) \<and> set (nodes (addNode g n)) = insert n (set (nodes g))
     \<and> dependsOn (addNode g n) = dependsOn g"
proof (cases "hasNode g n")
  case True
  with assms show ?thesis by (auto simp: addNode_def hasNode_def)
next
  case False
  then have n: "n \<notin> set (nodes g)" by (simp add: hasNode_def)
  with assms have a: "n \<notin> fst ` set (outgoingEdges g)" and b: "n \<notin> fst ` set (incomingEdges g)"
    by (simp_all add: wf_graph_def)
  from assms have t: "Range (edge_rel (outgoingEdges g)) \<subseteq> fst ` set (outgoingEdges g)"
    and o: "fst ` set (outgoingEdges g) = set (nodes g)"
    and i: "fst ` set (incomingEdges g) = set (nodes g)"
    and v: "edge_rel (incomingEdges g) = (edge_rel (outgoingEdges g))\<inverse>"
    unfolding wf_graph_def targets_ok_def by blast+
  let ?g = "\<lparr>nodes = nodes g @ [n], outgoingEdges = Map_set (outgoingEdges g) n [],
            incomingEdges = Map_set (incomingEdges g) n []\<rparr>"
  have g': "addNode g n = ?g" using False by (simp add: addNode_def)
  have "fst ` set (outgoingEdges ?g) = set (nodes ?g)" by (simp add: dom_Map_set o)
  moreover have "fst ` set (incomingEdges ?g) = set (nodes ?g)" by (simp add: dom_Map_set i)
  moreover have "targets_ok (outgoingEdges ?g)"
    using t by (auto simp: targets_ok_def dom_Map_set edge_rel_Map_set_new [OF a])
  moreover have "edge_rel (incomingEdges ?g) = (edge_rel (outgoingEdges ?g))\<inverse>"
    by (simp add: edge_rel_Map_set_new [OF a] edge_rel_Map_set_new [OF b] v)
  ultimately have "wf_graph (addNode g n)"
    unfolding g' wf_graph_def by blast
  moreover have "set (nodes (addNode g n)) = insert n (set (nodes g))"
    using False by (simp add: addNode_def)
  moreover have "dependsOn (addNode g n) = dependsOn g"
    using False by (simp add: addNode_def dependsOn_def edge_rel_Map_set_new [OF a])
  ultimately show ?thesis by blast
qed

lemma push_edge_Some:
  assumes "a \<in> fst ` set edges"
  shows "\<exists>edges'. push_edge edges a b = Inr edges' \<and> fst ` set edges' = fst ` set edges
     \<and> edge_rel edges' = insert (a, b) (edge_rel edges)"
proof -
  from map_of_dom_Some [OF assms] obtain es where es: "map_of edges a = Some es" ..
  show ?thesis
  proof (cases "b \<in> set es")
    case True
    then have "(a, b) \<in> edge_rel edges" using es by (auto simp: edge_rel_def)
    with True es show ?thesis by (auto simp: push_edge_def)
  next
    case False
    have "edge_rel edges `` {a} = set es" using es by (rule edge_rel_Image)
    then have "{a} \<times> set es \<subseteq> edge_rel edges" and "\<And>y. (a, y) \<in> edge_rel edges \<Longrightarrow> y \<in> set es"
      by blast+
    then have "edge_rel (Map_set edges a (es @ [b])) = insert (a, b) (edge_rel edges)"
      unfolding edge_rel_Map_set by auto
    moreover have "fst ` set (Map_set edges a (es @ [b])) = fst ` set edges"
      using assms by (auto simp: dom_Map_set)
    ultimately show ?thesis using False es by (simp add: push_edge_def)
  qed
qed

lemma wf_graph_addDependency:
  assumes wf: "wf_graph g" and a: "a \<in> set (nodes g)" and b: "b \<in> set (nodes g)"
  shows "\<exists>g'. addDependency g a b = Inr g' \<and> wf_graph g' \<and> nodes g' = nodes g
     \<and> dependsOn g' = insert (a, b) (dependsOn g)"
proof -
  from wf a have "a \<in> fst ` set (outgoingEdges g)" by (simp add: wf_graph_def)
  from push_edge_Some [OF this, of b] obtain out where
    out: "push_edge (outgoingEdges g) a b = Inr out"
    and dout: "fst ` set out = fst ` set (outgoingEdges g)"
    and eout: "edge_rel out = insert (a, b) (edge_rel (outgoingEdges g))"
    by blast
  from wf b have "b \<in> fst ` set (incomingEdges g)" by (simp add: wf_graph_def)
  from push_edge_Some [OF this, of a] obtain inc where
    inc: "push_edge (incomingEdges g) b a = Inr inc"
    and dinc: "fst ` set inc = fst ` set (incomingEdges g)"
    and einc: "edge_rel inc = insert (b, a) (edge_rel (incomingEdges g))"
    by blast
  let ?g = "g\<lparr>outgoingEdges := out, incomingEdges := inc\<rparr>"
  have r: "addDependency g a b = Inr ?g"
    using a b out inc by (simp add: addDependency_def hasNode_def)
  have "wf_graph ?g"
    using wf a b unfolding wf_graph_def targets_ok_def
    by (simp add: dout dinc eout einc) blast
  moreover have "dependsOn ?g = insert (a, b) (dependsOn g)"
    by (simp add: dependsOn_def eout)
  ultimately show ?thesis using r by simp
qed

lemma add_nodes_loop:
  assumes "wf_graph g"
  shows "wf_graph (foldl (\<lambda>graph (moduleId, moduleEntity). addNode graph moduleId) g ms)
     \<and> set (nodes (foldl (\<lambda>graph (moduleId, moduleEntity). addNode graph moduleId) g ms))
         = set (nodes g) \<union> fst ` set ms
     \<and> dependsOn (foldl (\<lambda>graph (moduleId, moduleEntity). addNode graph moduleId) g ms) = dependsOn g"
  using assms
proof (induction ms arbitrary: g)
  case Nil
  then show ?case by simp
next
  case (Cons x ms)
  obtain k e where x: "x = (k, e)" by (cases x)
  from wf_graph_addNode [OF Cons.prems, of k]
  have w: "wf_graph (addNode g k)" and s: "set (nodes (addNode g k)) = insert k (set (nodes g))"
    and d: "dependsOn (addNode g k) = dependsOn g" by simp_all
  from Cons.IH [OF w] show ?case
    by (simp add: x s d)
qed

lemma add_deps_loop:
  assumes m: "m \<in> set (nodes g)" and keys: "\<And>d. Map_has mods d \<Longrightarrow> d \<in> set (nodes g)"
  shows "wf_graph g \<Longrightarrow>
     \<exists>g'. for_of deps (\<lambda>depId graph. if Map_has mods depId then addDependency graph m depId
                                     else Inr graph) g = Inr g'
       \<and> wf_graph g' \<and> nodes g' = nodes g
       \<and> dependsOn g' = dependsOn g \<union> {(m, d) | d. d \<in> set deps \<and> Map_has mods d}"
  using m keys
proof (induction deps arbitrary: g)
  case Nil
  then show ?case by simp
next
  case (Cons d deps)
  let ?body = "\<lambda>depId graph. if Map_has mods depId then addDependency graph m depId else Inr graph"
  obtain g1 where g1: "?body d g = Inr g1" and w1: "wf_graph g1" and n1: "nodes g1 = nodes g"
    and d1: "dependsOn g1 = dependsOn g \<union> {(m, d') | d'. d' = d \<and> Map_has mods d'}"
  proof (cases "Map_has mods d")
    case True
    with Cons.prems(3) have "d \<in> set (nodes g)" by simp
    from wf_graph_addDependency [OF Cons.prems(1) Cons.prems(2) this] True that show ?thesis
      by auto
  next
    case False
    with Cons.prems(1) that show ?thesis by auto
  qed
  have m1: "m \<in> set (nodes g1)" using Cons.prems(2) n1 by simp
  have k1: "\<And>d. Map_has mods d \<Longrightarrow> d \<in> set (nodes g1)" using Cons.prems(3) n1 by simp
  from Cons.IH [OF w1 m1 k1] obtain g' where
    "for_of deps ?body g1 = Inr g'" "wf_graph g'" "nodes g' = nodes g1"
    "dependsOn g' = dependsOn g1 \<union> {(m, d) | d. d \<in> set deps \<and> Map_has mods d}"
    by blast
  then show ?case using g1 n1 d1 by auto
qed

lemma add_edges_loop:
  assumes keys: "\<And>d. Map_has mods d \<Longrightarrow> d \<in> set (nodes g)"
  shows "wf_graph g \<Longrightarrow> fst ` set ms \<subseteq> set (nodes g) \<Longrightarrow>
     \<exists>g'. for_of ms
            (\<lambda>(moduleId, moduleEntity) graph.
               (let deps = or_empty (field moduleEntity ''dependencies'')
                in for_of deps
                     (\<lambda>depId graph. if Map_has mods depId then addDependency graph moduleId depId
                                     else Inr graph)
                     graph))
            g = Inr g'
       \<and> wf_graph g' \<and> nodes g' = nodes g
       \<and> dependsOn g' = dependsOn g \<union> declared_deps mods ms"
  using keys
proof (induction ms arbitrary: g)
  case Nil
  then show ?case by (simp add: declared_deps_def)
next
  case (Cons x ms)
  obtain k e where x: "x = (k, e)" by (cases x)
  from Cons.prems(2) x have k: "k \<in> set (nodes g)" by simp
  from add_deps_loop [OF k Cons.prems(3) Cons.prems(1), of mods "or_empty (field e ''dependencies'')"]
  obtain g1 where
    g1: "for_of (or_empty (field e ''dependencies''))
           (\<lambda>depId graph. if Map_has mods depId then addDependency graph k depId else Inr graph) g = Inr g1"
    and w1: "wf_graph g1" and n1: "nodes g1 = nodes g"
    and d1: "dependsOn g1 = dependsOn g \<union> {(k, d) | d. d \<in> set (or_empty (field e ''dependencies'')) \<and> Map_has mods d}"
    by blast
  have s1: "fst ` set ms \<subseteq> set (nodes g1)" using Cons.prems(2) n1 by simp
  have k1: "\<And>d. Map_has mods d \<Longrightarrow> d \<in> set (nodes g1)" using Cons.prems(3) n1 by simp
  from Cons.IH [OF w1 s1 k1] obtain g' where
    g': "for_of ms
            (\<lambda>(moduleId, moduleEntity) graph.
               (let deps = or_empty (field moduleEntity ''dependencies'')
                in for_of deps
                     (\<lambda>depId graph. if Map_has mods depId then addDependency graph moduleId depId
                                     else Inr graph)
                     graph))
            g1 = Inr g'"
    and w': "wf_graph g'" and n': "nodes g' = nodes g1"
    and d': "dependsOn g' = dependsOn g1 \<union> declared_deps mods ms"
    by blast
  have "declared_deps mods (x # ms) =
      {(k, d) | d. d \<in> set (or_empty (field e ''dependencies'')) \<and> Map_has mods d} \<union> declared_deps mods ms"
    by (auto simp: declared_deps_def x)
  with g1 g' w' n' n1 d' d1 show ?case
    by (simp add: x Let_def Un_assoc)
qed

lemma Map_has_iff: "Map_has m k \<longleftrightarrow> k \<in> fst ` set m"
  by (simp add: Map_has_def map_of_eq_None_iff)

text \<open>
  \<open>buildModuleDependencyGraph\<close> never throws: it returns a well-formed graph whose
  nodes are the module ids and whose edges are the declared dependencies that are
  modules of the index.
\<close>

lemma buildModuleDependencyGraph_wf:
  "\<exists>g. buildModuleDependencyGraph entityIndex = Inr g \<and> wf_graph g
     \<and> set (nodes g) = fst ` set (modules entityIndex)
     \<and> dependsOn g = declared_deps (modules entityIndex) (modules entityIndex)"
proof -
  let ?ms = "modules entityIndex"
  let ?g0 = "foldl (\<lambda>graph (moduleId, moduleEntity). addNode graph moduleId) new_DepGraph ?ms"
  from add_nodes_loop [OF wf_graph_new, of ?ms]
  have w0: "wf_graph ?g0" and n0: "set (nodes ?g0) = fst ` set ?ms" and d0: "dependsOn ?g0 = {}"
    by (simp_all add: new_DepGraph_def dependsOn_def edge_rel_def)
  have keys: "\<And>d. Map_has ?ms d \<Longrightarrow> d \<in> set (nodes ?g0)"
    using n0 by (simp add: Map_has_iff)
  have sub: "fst ` set ?ms \<subseteq> set (nodes ?g0)" using n0 by simp
  from add_edges_loop [OF keys w0 sub] obtain g' where
    "for_of ?ms
            (\<lambda>(moduleId, moduleEntity) graph.
               (let deps = or_empty (field moduleEntity ''dependencies'')
                in for_of deps
                     (\<lambda>depId graph. if Map_has ?ms depId then addDependency graph moduleId depId
                                     else Inr graph)
                     graph))
            ?g0 = Inr g'"
    "wf_graph g'" "nodes g' = nodes ?g0" "dependsOn g' = dependsOn ?g0 \<union> declared_deps ?ms ?ms"
    by blast
  then show ?thesis
    using n0 d0 by (simp add: buildModuleDependencyGraph_def Let_def)
qed

section \<open>The dependency cascade\<close>

lemma cycle_graph_built: "buildModuleDependencyGraph cycle_index = Inr cycle_graph"
  by code_simp

lemma diamond_graph_built: "buildModuleDependencyGraph diamond_index = Inr diamond_graph"
  by code_simp

lemma built_wf: "buildModuleDependencyGraph entityIndex = Inr g \<Longrightarrow> wf_graph g"
  using buildModuleDependencyGraph_wf [of entityIndex] by auto

lemma in_dependsOn:
  "map_of (outgoingEdges g) a = Some es \<Longrightarrow> b \<in> set es \<Longrightarrow> (a, b) \<in> dependsOn g"
  by (auto simp: dependsOn_def edge_rel_def)

lemma no_dependsOn:
  "map_of (outgoingEdges g) a = Some [] \<Longrightarrow> (a, b) \<notin> dependsOn g"
  by (auto simp: dependsOn_def edge_rel_def)

lemma overallOrder_no_cycle: "wf_graph g \<Longrightarrow> overallOrder g = Inr order \<Longrightarrow> \<not> has_cycle g"
  using overallOrder_cycle [of g] by auto

lemma dependenciesOf_trancl:
  assumes "wf_graph g" "n \<in> set (nodes g)" "dependenciesOf g n = Inr ds"
  shows "(dependsOn g)\<^sup>+ `` {n} = set ds"
  using dependenciesOf_cases [OF assms(1,2)] assms(3) by (auto split: if_splits)

lemma priority_of_max_of: "X \<in> S \<Longrightarrow> priority_of X \<le> priority_of (max_of S)"
  by (auto simp: max_of_def priority_of_cases)

text \<open>
  C1. When the graph has a cycle, \<open>propagateDependencyCascade\<close> returns normally and
  its result is the input map: no module's bump is added, removed or changed.
\<close>

theorem propagateDependencyCascade_cycle:
  assumes "wf_graph g" and "has_cycle g"
  shows "propagateDependencyCascade g moduleBumps = Inr moduleBumps"
  using assms by (rule propagate_cycle)

theorem propagateDependencyCascade_cycle_witness:
  "wf_graph cycle_graph \<and> has_cycle cycle_graph
   \<and> (''Analysis'', ''Base'') \<in> dependsOn cycle_graph
   \<and> (dependsOn cycle_graph)\<^sup>+ `` {''Analysis''} = {''Base''}
   \<and> propagateDependencyCascade cycle_graph [(''Base'', ''major'')] = Inr [(''Base'', ''major'')]"
proof -
  have wf: "wf_graph cycle_graph"
    using cycle_graph_built by (rule built_wf)
  have "(''Core'', ''Lab'') \<in> dependsOn cycle_graph" "(''Lab'', ''Core'') \<in> dependsOn cycle_graph"
    by (rule in_dependsOn [where es = "[''Lab'']"], simp_all add: cycle_graph_def)
      (rule in_dependsOn [where es = "[''Core'']"], simp_all add: cycle_graph_def)
  then have "(''Core'', ''Core'') \<in> (dependsOn cycle_graph)\<^sup>+" by (rule trancl_into_trancl2 [OF _ r_into_trancl])
  then have cyc: "has_cycle cycle_graph" by (auto simp: has_cycle_def)
  have ab: "(''Analysis'', ''Base'') \<in> dependsOn cycle_graph"
    by (rule in_dependsOn [where es = "[''Base'']"]) (simp_all add: cycle_graph_def)
  have d: "dependenciesOf cycle_graph ''Analysis'' = Inr [''Base'']" by code_simp
  have "(dependsOn cycle_graph)\<^sup>+ `` {''Analysis''} = set [''Base'']"
    by (rule dependenciesOf_trancl [OF wf _ d]) (simp add: cycle_graph_def)
  then have acyc: "(dependsOn cycle_graph)\<^sup>+ `` {''Analysis''} = {''Base''}" by simp
  from propagateDependencyCascade_cycle [OF wf cyc, of "[(''Base'', ''major'')]"] wf cyc ab acyc
  show ?thesis by blast
qed

text \<open>
  C2, as the code has it. On an acyclic graph the cascade returns normally. A module
  \<open>B\<close> that has a dependency, direct or transitive, with an entry in the input map
  ends with \<open>maxBumpType\<close> over its own input bump (when present) together with the
  input bumps of all the modules it depends on, directly or transitively; so its bump
  has at least the priority of the entry \<open>X\<close> of each such module \<open>A\<close>. A module none
  of whose dependencies has an entry keeps its input entry, and a module with no
  dependencies and no entry is absent from the result.
\<close>

theorem propagateDependencyCascade_acyclic:
  assumes "wf_graph g" and "\<not> has_cycle g"
  shows "\<exists>res. propagateDependencyCascade g moduleBumps = Inr res
     \<and> (\<forall>B. (dep_values g moduleBumps B \<noteq> {} \<longrightarrow>
                (\<forall>vs. set vs = own_values moduleBumps B \<union> dep_values g moduleBumps B \<longrightarrow>
                      map_of res B = Some (maxBumpType vs)))
            \<and> (dep_values g moduleBumps B = {} \<longrightarrow> map_of res B = map_of moduleBumps B)
            \<and> ((\<forall>A. (B, A) \<notin> dependsOn g) \<and> \<not> Map_has moduleBumps B \<longrightarrow> \<not> Map_has res B)
            \<and> (\<forall>A X. (B, A) \<in> (dependsOn g)\<^sup>+ \<and> map_of moduleBumps A = Some X \<longrightarrow>
                  (\<exists>Y. map_of res B = Some Y \<and> priority_of X \<le> priority_of Y)))"
proof -
  from propagate_acyclic [OF assms, of moduleBumps] obtain res where
    res: "propagateDependencyCascade g moduleBumps = Inr res" and m: "map_of res = cascaded g moduleBumps"
    by blast
  have a: "map_of res B = Some (maxBumpType vs)"
    if "dep_values g moduleBumps B \<noteq> {}" "set vs = own_values moduleBumps B \<union> dep_values g moduleBumps B"
    for B vs
    using that by (simp add: m cascaded_def maxBumpType_max_of)
  have b: "map_of res B = map_of moduleBumps B" if "dep_values g moduleBumps B = {}" for B
    using that by (simp add: m cascaded_def)
  have c: "\<not> Map_has res B" if "\<forall>A. (B, A) \<notin> dependsOn g" "\<not> Map_has moduleBumps B" for B
  proof -
    have "dep_values g moduleBumps B = {}"
      using that(1) by (auto simp: dep_values_def elim: converse_tranclE)
    with b [of B] that(2) show ?thesis by (simp add: Map_has_def)
  qed
  have d: "\<exists>Y. map_of res B = Some Y \<and> priority_of X \<le> priority_of Y"
    if "(B, A) \<in> (dependsOn g)\<^sup>+" "map_of moduleBumps A = Some X" for B A X
  proof -
    from that have X: "X \<in> dep_values g moduleBumps B" by (auto simp: dep_values_def)
    then have "map_of res B = Some (max_of (own_values moduleBumps B \<union> dep_values g moduleBumps B))"
      by (auto simp: m cascaded_def)
    moreover have "priority_of X \<le> priority_of (max_of (own_values moduleBumps B \<union> dep_values g moduleBumps B))"
      using X by (intro priority_of_max_of) simp
    ultimately show ?thesis by blast
  qed
  from res a b c d show ?thesis by blast
qed

lemma diamond_facts:
  "wf_graph diamond_graph" "\<not> has_cycle diamond_graph"
  "(dependsOn diamond_graph)\<^sup>+ `` {''Lab''} = {''Core'', ''Base''}"
proof -
  show wf: "wf_graph diamond_graph"
    using diamond_graph_built by (rule built_wf)
  have "overallOrder diamond_graph = Inr [''Core'', ''Base'', ''Lab'', ''Solo'']" by code_simp
  with wf show "\<not> has_cycle diamond_graph" by (rule overallOrder_no_cycle)
  have d: "dependenciesOf diamond_graph ''Lab'' = Inr [''Core'', ''Base'']" by code_simp
  have "(dependsOn diamond_graph)\<^sup>+ `` {''Lab''} = set [''Core'', ''Base'']"
    by (rule dependenciesOf_trancl [OF wf _ d]) (simp add: diamond_graph_def)
  then show "(dependsOn diamond_graph)\<^sup>+ `` {''Lab''} = {''Core'', ''Base''}" by simp
qed

theorem propagateDependencyCascade_acyclic_witness:
  "wf_graph diamond_graph \<and> \<not> has_cycle diamond_graph
   \<and> own_values diamond_bumps ''Lab'' \<union> dep_values diamond_graph diamond_bumps ''Lab''
       = set [''patch'', ''major'']
   \<and> (\<exists>res. propagateDependencyCascade diamond_graph diamond_bumps = Inr res
         \<and> map_of res ''Lab'' = Some (maxBumpType [''patch'', ''major''])
         \<and> \<not> Map_has res ''Solo'')"
proof -
  note wf = diamond_facts(1) and ac = diamond_facts(2)
  have dv: "dep_values diamond_graph diamond_bumps ''Lab'' = {''patch'', ''major''}"
  proof -
    have "dep_values diamond_graph diamond_bumps ''Lab''
        = {b. \<exists>d \<in> (dependsOn diamond_graph)\<^sup>+ `` {''Lab''}. map_of diamond_bumps d = Some b}"
      by (auto simp: dep_values_def)
    also have "\<dots> = {''patch'', ''major''}"
      unfolding diamond_facts(3) by (auto simp: diamond_bumps_def)
    finally show ?thesis .
  qed
  have ov: "own_values diamond_bumps ''Lab'' = {}"
    by (simp add: own_values_def diamond_bumps_def)
  have vs: "set [''patch'', ''major''] = own_values diamond_bumps ''Lab'' \<union> dep_values diamond_graph diamond_bumps ''Lab''"
    by (simp add: dv ov)
  have solo: "\<forall>A. (''Solo'', A) \<notin> dependsOn diamond_graph"
    by (auto intro!: no_dependsOn simp: diamond_graph_def)
  have nb: "\<not> Map_has diamond_bumps ''Solo''"
    by (simp add: Map_has_def diamond_bumps_def)
  from propagateDependencyCascade_acyclic [OF wf ac, of diamond_bumps] obtain res where
    res: "propagateDependencyCascade diamond_graph diamond_bumps = Inr res"
    and all: "\<forall>B. (dep_values diamond_graph diamond_bumps B \<noteq> {} \<longrightarrow>
                (\<forall>vs. set vs = own_values diamond_bumps B \<union> dep_values diamond_graph diamond_bumps B \<longrightarrow>
                      map_of res B = Some (maxBumpType vs)))
            \<and> (dep_values diamond_graph diamond_bumps B = {} \<longrightarrow> map_of res B = map_of diamond_bumps B)
            \<and> ((\<forall>A. (B, A) \<notin> dependsOn diamond_graph) \<and> \<not> Map_has diamond_bumps B \<longrightarrow> \<not> Map_has res B)
            \<and> (\<forall>A X. (B, A) \<in> (dependsOn diamond_graph)\<^sup>+ \<and> map_of diamond_bumps A = Some X \<longrightarrow>
                  (\<exists>Y. map_of res B = Some Y \<and> priority_of X \<le> priority_of Y))"
    by blast
  from all dv vs have "map_of res ''Lab'' = Some (maxBumpType [''patch'', ''major''])" by blast
  moreover from all solo nb have "\<not> Map_has res ''Solo''" by blast
  ultimately show ?thesis using wf ac res vs by auto
qed

text \<open>
  C2 as stated fails: \<open>Lab\<close> depends on \<open>Core\<close>, whose entry is \<open>patch\<close>, and has no
  entry of its own, yet its bump after the cascade is \<open>major\<close> (from \<open>Base\<close>), not
  \<open>maxBumpType [patch]\<close>.
\<close>

theorem propagateDependencyCascade_single_dependency_counterexample:
  "wf_graph diamond_graph \<and> \<not> has_cycle diamond_graph
   \<and> (''Lab'', ''Core'') \<in> dependsOn diamond_graph
   \<and> map_of diamond_bumps ''Core'' = Some ''patch''
   \<and> map_of diamond_bumps ''Lab'' = None
   \<and> propagateDependencyCascade diamond_graph diamond_bumps
       = Inr [(''Core'', ''patch''), (''Base'', ''major''), (''Lab'', ''major'')]
   \<and> map_of [(''Core'', ''patch''), (''Base'', ''major''), (''Lab'', ''major'')] ''Lab''
       \<noteq> Some (maxBumpType [''patch''])"
proof -
  have "(''Lab'', ''Core'') \<in> dependsOn diamond_graph"
    by (rule in_dependsOn [where es = "[''Core'', ''Base'']"]) (simp_all add: diamond_graph_def)
  moreover have "propagateDependencyCascade diamond_graph diamond_bumps
       = Inr [(''Core'', ''patch''), (''Base'', ''major''), (''Lab'', ''major'')]"
    by code_simp
  moreover have "maxBumpType [''patch''] = ''patch''" by (simp add: maxBumpType_set)
  ultimately show ?thesis
    using diamond_facts(1,2) by (simp add: diamond_bumps_def)
qed

section \<open>The reference validator\<close>

lemma reverse_index_inner:
  assumes "ran (map_of ri) \<subseteq> S" "m \<in> S"
  shows "ran (map_of (foldl (\<lambda>reverseIndex entityId. Map_set reverseIndex (entity_key t entityId) m) ri ids)) \<subseteq> S"
  using assms
proof (induction ids arbitrary: ri)
  case Nil
  then show ?case by simp
next
  case (Cons i ids)
  have "ran (map_of (Map_set ri (entity_key t i) m)) \<subseteq> S"
    using Cons.prems by (auto simp: map_of_Map_set ran_def)
  from Cons.IH [OF this Cons.prems(2)] show ?case by simp
qed

lemma reverse_index_types:
  assumes "ran (map_of ri) \<subseteq> S" "m \<in> S"
  shows "ran (map_of (foldl (\<lambda>reverseIndex entityType.
           foldl (\<lambda>reverseIndex entityId. Map_set reverseIndex (entity_key entityType entityId) m)
             reverseIndex (or_empty (field e entityType))) ri ts)) \<subseteq> S"
  using assms
proof (induction ts arbitrary: ri)
  case Nil
  then show ?case by simp
next
  case (Cons t ts)
  from reverse_index_inner [OF Cons.prems, of t "or_empty (field e t)"]
  have "ran (map_of (foldl (\<lambda>reverseIndex entityId. Map_set reverseIndex (entity_key t entityId) m)
      ri (or_empty (field e t)))) \<subseteq> S" .
  from Cons.IH [OF this Cons.prems(2)] show ?case by simp
qed

lemma reverse_index_modules:
  assumes "ran (map_of ri) \<subseteq> S" "fst ` set ms \<subseteq> S"
  shows "ran (map_of (foldl (\<lambda>reverseIndex (moduleId, moduleEntity).
        foldl (\<lambda>reverseIndex entityType.
           foldl (\<lambda>reverseIndex entityId.
                    Map_set reverseIndex (entity_key entityType entityId) moduleId)
             reverseIndex (or_empty (field moduleEntity entityType)))
          reverseIndex ENTITY_TYPES) ri ms)) \<subseteq> S"
  using assms
proof (induction ms arbitrary: ri)
  case Nil
  then show ?case by simp
next
  case (Cons x ms)
  obtain m e where x: "x = (m, e)" by (cases x)
  with Cons.prems have m: "m \<in> S" and sub: "fst ` set ms \<subseteq> S" by simp_all
  from reverse_index_types [OF Cons.prems(1) m, of e ENTITY_TYPES]
  have "ran (map_of (foldl (\<lambda>reverseIndex entityType.
           foldl (\<lambda>reverseIndex entityId. Map_set reverseIndex (entity_key entityType entityId) m)
             reverseIndex (or_empty (field e entityType))) ri ENTITY_TYPES)) \<subseteq> S" .
  from Cons.IH [OF this sub] show ?case by (simp add: x)
qed

lemma owner_is_module:
  assumes "owner entityIndex entityType entityId = Some m"
  shows "m \<in> fst ` set (modules entityIndex)"
proof -
  have "ran (map_of (buildReverseModuleIndex entityIndex)) \<subseteq> fst ` set (modules entityIndex)"
    unfolding buildReverseModuleIndex_def
    by (rule reverse_index_modules) simp_all
  with assms show ?thesis by (auto simp: owner_def ran_def)
qed

lemma set_foldl_Set_add: "set (foldl Set_add s xs) = set s \<union> set xs"
  by (induction xs arbitrary: s) (auto simp: Set_add_def)

lemma getModuleScope_cases:
  assumes wf: "wf_graph g" and n: "n \<in> set (nodes g)"
  shows "if \<exists>m. (n, m) \<in> (dependsOn g)\<^sup>* \<and> (m, m) \<in> (dependsOn g)\<^sup>+
         then getModuleScope g n = Inr None
         else \<exists>scope. getModuleScope g n = Inr (Some scope) \<and> set scope = (dependsOn g)\<^sup>* `` {n}"
proof (cases "\<exists>m. (n, m) \<in> (dependsOn g)\<^sup>* \<and> (m, m) \<in> (dependsOn g)\<^sup>+")
  case True
  with dependenciesOf_cases [OF wf n] obtain p where "dependenciesOf g n = Inl (DepGraphCycleError p)"
    by auto
  with True show ?thesis
    by (simp add: getModuleScope_def is_cycle_error_DepGraphCycleError)
next
  case False
  with dependenciesOf_cases [OF wf n] obtain ds where
    ds: "dependenciesOf g n = Inr ds" and sds: "set ds = (dependsOn g)\<^sup>+ `` {n}"
    by auto
  have "set (foldl Set_add [n] ds) = (dependsOn g)\<^sup>* `` {n}"
    by (auto simp: set_foldl_Set_add sds rtrancl_eq_or_trancl)
  with False ds show ?thesis by (simp add: getModuleScope_def)
qed

lemma concat_map_concat_map:
  "concat (map f (concat (map g xs))) = concat (map (\<lambda>x. concat (map f (g x))) xs)"
  by (induction xs) auto

lemma for_of_collect:
  assumes "\<And>x errs. x \<in> set xs \<Longrightarrow> body x errs = Inr (errs @ out x)"
  shows "for_of xs body errs = Inr (errs @ concat (map out xs))"
  using assms
proof (induction xs arbitrary: errs)
  case Nil
  then show ?case by simp
next
  case (Cons x xs)
  have "body x errs = Inr (errs @ out x)" by (rule Cons.prems) simp
  moreover have "for_of xs body (errs @ out x) = Inr ((errs @ out x) @ concat (map out xs))"
    by (rule Cons.IH) (simp add: Cons.prems)
  ultimately show ?case by simp
qed

lemma validate_ref_append:
  "validate_ref entityIndex ri entityType entityId entity sourceModuleId moduleScope
       fieldName targetType refId errors =
     (case validate_ref entityIndex ri entityType entityId entity sourceModuleId moduleScope
             fieldName targetType refId [] of
        Inl err \<Rightarrow> Inl err
      | Inr out \<Rightarrow> Inr (errors @ out))"
  by (simp add: validate_ref_def Let_def split: option.splits)

lemma validate_ref_total:
  assumes "index_get entityIndex targetType \<noteq> None"
  shows "\<exists>out. validate_ref entityIndex ri entityType entityId entity sourceModuleId moduleScope
       fieldName targetType refId [] = Inr out"
  using assms by (auto simp: validate_ref_def Let_def split: option.splits)

lemma table_types:
  assumes "(entityType, fieldMap) \<in> set REFERENCE_FIELDS"
  shows "index_get entityIndex entityType \<noteq> None"
    and "(fieldName, targetType) \<in> set fieldMap \<Longrightarrow> index_get entityIndex targetType \<noteq> None"
  using assms by (auto simp: REFERENCE_FIELDS_def index_get_def)

lemma built_graph:
  obtains g where "buildModuleDependencyGraph entityIndex = Inr g" "wf_graph g"
    "set (nodes g) = fst ` set (modules entityIndex)" "dependsOn g = module_deps entityIndex"
  using buildModuleDependencyGraph_wf [of entityIndex] by (auto simp: module_deps_def)

lemma source_scope_cases:
  assumes g: "buildModuleDependencyGraph entityIndex = Inr g"
  shows "source_scope g (owner entityIndex entityType entityId) entityType =
     Inr (case owner entityIndex entityType entityId of
            None \<Rightarrow> None
          | Some m \<Rightarrow>
              if truthy m \<and> entityType \<in> set scopeCheckTypes
              then (case getModuleScope g m of Inr sc \<Rightarrow> sc | Inl err \<Rightarrow> None)
              else None)
     \<and> (\<forall>m. owner entityIndex entityType entityId = Some m \<longrightarrow>
           (if \<exists>x. (m, x) \<in> (module_deps entityIndex)\<^sup>* \<and> (x, x) \<in> (module_deps entityIndex)\<^sup>+
            then getModuleScope g m = Inr None
            else \<exists>scope. getModuleScope g m = Inr (Some scope)
                   \<and> set scope = (module_deps entityIndex)\<^sup>* `` {m}))"
proof -
  from buildModuleDependencyGraph_wf [of entityIndex] g
  have wf: "wf_graph g" and ns: "set (nodes g) = fst ` set (modules entityIndex)"
    and d: "dependsOn g = module_deps entityIndex"
    by (auto simp: module_deps_def)
  have sc: "if \<exists>x. (m, x) \<in> (module_deps entityIndex)\<^sup>* \<and> (x, x) \<in> (module_deps entityIndex)\<^sup>+
            then getModuleScope g m = Inr None
            else \<exists>scope. getModuleScope g m = Inr (Some scope)
                   \<and> set scope = (module_deps entityIndex)\<^sup>* `` {m}"
    if "owner entityIndex entityType entityId = Some m" for m
  proof -
    from owner_is_module [OF that] ns have "m \<in> set (nodes g)" by simp
    from getModuleScope_cases [OF wf this, unfolded d] show ?thesis .
  qed
  have "source_scope g (owner entityIndex entityType entityId) entityType =
     Inr (case owner entityIndex entityType entityId of
            None \<Rightarrow> None
          | Some m \<Rightarrow>
              if truthy m \<and> entityType \<in> set scopeCheckTypes
              then (case getModuleScope g m of Inr sc \<Rightarrow> sc | Inl err \<Rightarrow> None)
              else None)"
  proof (cases "owner entityIndex entityType entityId")
    case None
    then show ?thesis by (simp add: source_scope_def)
  next
    case (Some m)
    from sc [OF Some] obtain r where "getModuleScope g m = Inr r" by (auto split: if_splits)
    with Some show ?thesis by (simp add: source_scope_def)
  qed
  with sc show ?thesis by blast
qed

lemma emitted_eq:
  assumes g: "buildModuleDependencyGraph entityIndex = Inr g"
    and sc: "source_scope g (owner entityIndex entityType entityId) entityType = Inr moduleScope"
  shows "emitted entityIndex (entityType, entityId, entity, fieldName, targetType, refId) =
     validate_ref entityIndex (buildReverseModuleIndex entityIndex) entityType entityId entity
       (owner entityIndex entityType entityId) moduleScope fieldName targetType refId []"
  using g sc by (simp add: emitted_def owner_def Let_def)

lemma validate_entity_collect:
  assumes g: "buildModuleDependencyGraph entityIndex = Inr g"
    and tab: "(entityType, fieldMap) \<in> set REFERENCE_FIELDS"
  shows "validate_entity entityIndex g (buildReverseModuleIndex entityIndex) entityType fieldMap
       (entityId, entity) errors =
     Inr (errors @ concat (map (\<lambda>r. outs_of (emitted entityIndex r))
                             (refs_of_entity entityType fieldMap (entityId, entity))))"
proof -
  let ?ri = "buildReverseModuleIndex entityIndex"
  let ?src = "owner entityIndex entityType entityId"
  let ?o = "\<lambda>r. outs_of (emitted entityIndex r)"
  from source_scope_cases [OF g, of entityType entityId] obtain sc where
    sc: "source_scope g ?src entityType = Inr sc" by blast
  have ref: "validate_ref entityIndex ?ri entityType entityId entity ?src sc fieldName targetType refId errs
      = Inr (errs @ ?o (entityType, entityId, entity, fieldName, targetType, refId))"
    if "(fieldName, targetType) \<in> set fieldMap" for fieldName targetType refId errs
  proof -
    from table_types(2) [OF tab that] have "index_get entityIndex targetType \<noteq> None" .
    from validate_ref_total [OF this] obtain out where
      out: "validate_ref entityIndex ?ri entityType entityId entity ?src sc fieldName targetType refId [] = Inr out"
      by blast
    then have "emitted entityIndex (entityType, entityId, entity, fieldName, targetType, refId) = Inr out"
      by (simp add: emitted_eq [OF g sc])
    with out show ?thesis
      by (subst validate_ref_append) (simp add: outs_of_def)
  qed
  have fld: "(case x of (fieldName, targetType) \<Rightarrow> \<lambda>errors.
          (let refs = normalizeToArray (field entity fieldName)
           in for_of refs (validate_ref entityIndex ?ri entityType entityId entity ?src sc
                            fieldName targetType) errors)) errs
      = Inr (errs @ concat (map ?o (refs_of_field entityType entityId entity x)))"
    if "x \<in> set fieldMap" for x errs
  proof -
    obtain fieldName targetType where x: "x = (fieldName, targetType)" by (cases x)
    have "for_of (normalizeToArray (field entity fieldName))
        (validate_ref entityIndex ?ri entityType entityId entity ?src sc fieldName targetType) errs
      = Inr (errs @ concat (map (\<lambda>refId. ?o (entityType, entityId, entity, fieldName, targetType, refId))
                             (normalizeToArray (field entity fieldName))))"
      by (rule for_of_collect) (rule ref, use that x in simp)
    then show ?thesis by (simp add: x comp_def)
  qed
  have "for_of fieldMap
        (\<lambda>(fieldName, targetType) errors.
           (let refs = normalizeToArray (field entity fieldName)
            in for_of refs (validate_ref entityIndex ?ri entityType entityId entity ?src sc
                             fieldName targetType) errors)) errors
      = Inr (errors @ concat (map (\<lambda>x. concat (map ?o (refs_of_field entityType entityId entity x))) fieldMap))"
    by (rule for_of_collect) (rule fld)
  then show ?thesis
    using sc by (simp add: validate_entity_def owner_def Let_def concat_map_concat_map)
qed

lemma validate_type_collect:
  assumes g: "buildModuleDependencyGraph entityIndex = Inr g"
    and tab: "x \<in> set REFERENCE_FIELDS"
  shows "(case x of (entityType, fieldMap) \<Rightarrow> \<lambda>errors.
            case index_get entityIndex entityType of
              None \<Rightarrow> Inl TypeError
            | Some entities \<Rightarrow>
                for_of entities
                  (validate_entity entityIndex g (buildReverseModuleIndex entityIndex) entityType fieldMap)
                  errors) errs
     = Inr (errs @ concat (map (\<lambda>r. outs_of (emitted entityIndex r)) (refs_of_type entityIndex x)))"
proof -
  obtain entityType fieldMap where x: "x = (entityType, fieldMap)" by (cases x)
  from table_types(1) [of entityType fieldMap entityIndex] tab x obtain entities where
    es: "index_get entityIndex entityType = Some entities" by auto
  have "for_of entities
      (validate_entity entityIndex g (buildReverseModuleIndex entityIndex) entityType fieldMap) errs
    = Inr (errs @ concat (map (\<lambda>entry. concat (map (\<lambda>r. outs_of (emitted entityIndex r))
                                    (refs_of_entity entityType fieldMap entry))) entities))"
  proof (rule for_of_collect)
    fix entry :: "string \<times> Entity" and errors
    obtain entityId entity where e: "entry = (entityId, entity)" by (cases entry)
    from tab x have "(entityType, fieldMap) \<in> set REFERENCE_FIELDS" by simp
    from validate_entity_collect [OF g this]
    show "validate_entity entityIndex g (buildReverseModuleIndex entityIndex) entityType fieldMap entry errors
      = Inr (errors @ concat (map (\<lambda>r. outs_of (emitted entityIndex r))
                                (refs_of_entity entityType fieldMap entry)))"
      by (simp add: e)
  qed
  then show ?thesis by (simp add: x es concat_map_concat_map)
qed

lemma validateReferences_collect:
  "validateReferences entityIndex =
     Inr (concat (map (\<lambda>r. outs_of (emitted entityIndex r)) (all_references entityIndex)), [])"
proof -
  obtain g where g: "buildModuleDependencyGraph entityIndex = Inr g" by (rule built_graph)
  have "for_of REFERENCE_FIELDS
      (\<lambda>(entityType, fieldMap) errors.
         case index_get entityIndex entityType of
           None \<Rightarrow> Inl TypeError
         | Some entities \<Rightarrow>
             for_of entities
               (validate_entity entityIndex g (buildReverseModuleIndex entityIndex) entityType fieldMap)
               errors) []
    = Inr ([] @ concat (map (\<lambda>x. concat (map (\<lambda>r. outs_of (emitted entityIndex r))
                                    (refs_of_type entityIndex x))) REFERENCE_FIELDS))"
    by (rule for_of_collect) (rule validate_type_collect [OF g])
  then show ?thesis
    by (simp add: validateReferences_def g all_references_def concat_map_concat_map)
qed

lemma validate_ref_scope_violation:
  assumes "validate_ref entityIndex ri entityType entityId entity sourceModuleId moduleScope
       fieldName targetType refId [] = Inr out"
  shows "(\<exists>e \<in> set out. err_type e = ''scope-violation'') \<longleftrightarrow>
     (\<not> (refId = entityId \<and> targetType = entityType)
      \<and> (\<exists>targetIndex. index_get entityIndex targetType = Some targetIndex \<and> Map_has targetIndex refId)
      \<and> (\<exists>scope tgt. moduleScope = Some scope \<and> entityType \<in> set scopeCheckTypes
            \<and> targetType \<noteq> ''modules''
            \<and> map_of ri (entity_key targetType refId) = Some tgt \<and> truthy tgt \<and> tgt \<notin> set scope))"
  using assms
  by (auto simp: validate_ref_def Let_def self_reference_error_def missing_reference_error_def
      scope_violation_error_def split: if_splits option.splits)



lemma source_scope_Some_iff:
  assumes g: "buildModuleDependencyGraph entityIndex = Inr g"
    and ids: "[] \<notin> fst ` set (modules entityIndex)"
    and sc: "source_scope g (owner entityIndex entityType entityId) entityType = Inr moduleScope"
  shows "moduleScope = Some scope \<longrightarrow>
       (\<exists>src. owner entityIndex entityType entityId = Some src \<and> entityType \<in> set scopeCheckTypes
          \<and> \<not> (\<exists>x. (src, x) \<in> (module_deps entityIndex)\<^sup>* \<and> (x, x) \<in> (module_deps entityIndex)\<^sup>+)
          \<and> set scope = (module_deps entityIndex)\<^sup>* `` {src})"
    and "owner entityIndex entityType entityId = Some src \<Longrightarrow> entityType \<in> set scopeCheckTypes \<Longrightarrow>
       \<not> (\<exists>x. (src, x) \<in> (module_deps entityIndex)\<^sup>* \<and> (x, x) \<in> (module_deps entityIndex)\<^sup>+) \<Longrightarrow>
       \<exists>scope. moduleScope = Some scope \<and> set scope = (module_deps entityIndex)\<^sup>* `` {src}"
proof -
  note c = source_scope_cases [OF g, of entityType entityId]
  show "moduleScope = Some scope \<longrightarrow>
       (\<exists>src. owner entityIndex entityType entityId = Some src \<and> entityType \<in> set scopeCheckTypes
          \<and> \<not> (\<exists>x. (src, x) \<in> (module_deps entityIndex)\<^sup>* \<and> (x, x) \<in> (module_deps entityIndex)\<^sup>+)
          \<and> set scope = (module_deps entityIndex)\<^sup>* `` {src})"
  proof
    assume s: "moduleScope = Some scope"
    from c sc s obtain src where src: "owner entityIndex entityType entityId = Some src"
      by (cases "owner entityIndex entityType entityId") auto
    from c sc s src have t: "truthy src \<and> entityType \<in> set scopeCheckTypes"
      and gm: "getModuleScope g src = Inr (Some scope)"
      by (auto split: if_splits sum.splits)
    from c src have "if \<exists>x. (src, x) \<in> (module_deps entityIndex)\<^sup>* \<and> (x, x) \<in> (module_deps entityIndex)\<^sup>+
            then getModuleScope g src = Inr None
            else \<exists>scope. getModuleScope g src = Inr (Some scope)
                   \<and> set scope = (module_deps entityIndex)\<^sup>* `` {src}"
      by blast
    with gm have "\<not> (\<exists>x. (src, x) \<in> (module_deps entityIndex)\<^sup>* \<and> (x, x) \<in> (module_deps entityIndex)\<^sup>+)"
      and "set scope = (module_deps entityIndex)\<^sup>* `` {src}"
      by (auto split: if_splits)
    with src t show "\<exists>src. owner entityIndex entityType entityId = Some src \<and> entityType \<in> set scopeCheckTypes
          \<and> \<not> (\<exists>x. (src, x) \<in> (module_deps entityIndex)\<^sup>* \<and> (x, x) \<in> (module_deps entityIndex)\<^sup>+)
          \<and> set scope = (module_deps entityIndex)\<^sup>* `` {src}"
      by blast
  qed
next
  note c = source_scope_cases [OF g, of entityType entityId]
  assume src: "owner entityIndex entityType entityId = Some src"
    and t: "entityType \<in> set scopeCheckTypes"
    and nc: "\<not> (\<exists>x. (src, x) \<in> (module_deps entityIndex)\<^sup>* \<and> (x, x) \<in> (module_deps entityIndex)\<^sup>+)"
  from owner_is_module [OF src] ids have "src \<noteq> []" by metis
  then have tr: "truthy src" by (simp add: truthy_def)
  from c src nc obtain scope where gm: "getModuleScope g src = Inr (Some scope)"
    and ss: "set scope = (module_deps entityIndex)\<^sup>* `` {src}"
    by (auto split: if_splits)
  from c sc src tr t gm have "moduleScope = Some scope" by simp
  with ss show "\<exists>scope. moduleScope = Some scope \<and> set scope = (module_deps entityIndex)\<^sup>* `` {src}"
    by blast
qed

subsection \<open>Ownership, dependencies and references as the code computes them\<close>

lemma entity_key_inject:
  assumes "CHR '':'' \<notin> set t" "CHR '':'' \<notin> set t'"
  shows "entity_key t i = entity_key t' i' \<longleftrightarrow> t = t' \<and> i = i'"
  using assms
proof (induction t arbitrary: t')
  case Nil
  then show ?case by (cases t') (auto simp: entity_key_def)
next
  case (Cons c t)
  then show ?case by (cases t') (auto simp: entity_key_def)
qed

lemma reverse_index_inner_lookup:
  "map_of (foldl (\<lambda>reverseIndex entityId. Map_set reverseIndex (entity_key t entityId) m) ri ids) k =
     (if k \<in> entity_key t ` set ids then Some m else map_of ri k)"
  by (induction ids arbitrary: ri) (auto simp: map_of_Map_set)

lemma reverse_index_types_lookup:
  "map_of (foldl (\<lambda>reverseIndex entityType.
           foldl (\<lambda>reverseIndex entityId. Map_set reverseIndex (entity_key entityType entityId) m)
             reverseIndex (or_empty (field e entityType))) ri ts) k =
     (if \<exists>t \<in> set ts. k \<in> entity_key t ` set (or_empty (field e t)) then Some m else map_of ri k)"
  by (induction ts arbitrary: ri) (auto simp: reverse_index_inner_lookup)

lemma or_empty_lists_id: "x \<in> set (or_empty (field e f)) \<longleftrightarrow> lists_id e f x"
  by (auto simp: or_empty_def lists_id_def split: option.splits field_value.splits)

lemma ENTITY_TYPES_member_types: "set ENTITY_TYPES = member_types"
  by (auto simp: ENTITY_TYPES_def member_types_def)

lemma scopeCheckTypes_member_types: "set scopeCheckTypes = member_types"
  by (auto simp: scopeCheckTypes_def member_types_def)

lemma member_types_no_colon: "t \<in> member_types \<Longrightarrow> CHR '':'' \<notin> set t"
  by (auto simp: member_types_def)

lemma reverse_index_module_lookup:
  assumes "CHR '':'' \<notin> set t"
  shows "map_of (foldl (\<lambda>reverseIndex entityType.
           foldl (\<lambda>reverseIndex entityId. Map_set reverseIndex (entity_key entityType entityId) m)
             reverseIndex (or_empty (field e entityType))) ri ENTITY_TYPES) (entity_key t i) =
     (if t \<in> member_types \<and> lists_id e t i then Some m else map_of ri (entity_key t i))"
proof -
  have "(\<exists>t' \<in> set ENTITY_TYPES. entity_key t i \<in> entity_key t' ` set (or_empty (field e t')))
      \<longleftrightarrow> t \<in> member_types \<and> lists_id e t i"
  proof
    assume "\<exists>t' \<in> set ENTITY_TYPES. entity_key t i \<in> entity_key t' ` set (or_empty (field e t'))"
    then obtain t' i' where t': "t' \<in> member_types" and i': "i' \<in> set (or_empty (field e t'))"
      and k: "entity_key t i = entity_key t' i'"
      unfolding ENTITY_TYPES_member_types by blast
    from entity_key_inject [OF assms member_types_no_colon [OF t']] k have "t = t'" "i = i'"
      by simp_all
    with t' i' show "t \<in> member_types \<and> lists_id e t i" by (simp add: or_empty_lists_id)
  next
    assume "t \<in> member_types \<and> lists_id e t i"
    then have "t \<in> member_types" "entity_key t i \<in> entity_key t ` set (or_empty (field e t))"
      by (simp_all add: or_empty_lists_id)
    then show "\<exists>t' \<in> set ENTITY_TYPES. entity_key t i \<in> entity_key t' ` set (or_empty (field e t'))"
      unfolding ENTITY_TYPES_member_types by blast
  qed
  then show ?thesis by (simp add: reverse_index_types_lookup)
qed

lemma case_snoc_last:
  "(case ys @ [x] of [] \<Rightarrow> d | y # zs \<Rightarrow> Some (fst (last (y # zs)))) = Some (fst x)"
  by (cases ys) auto

lemma foldl_last_lookup:
  assumes "\<And>ri x. map_of (F ri x) k = (if P x then Some (fst x) else map_of ri k)"
  shows "map_of (foldl F ri ms) k =
     (case filter P ms of [] \<Rightarrow> map_of ri k | y # zs \<Rightarrow> Some (fst (last (y # zs))))"
proof (induction ms rule: rev_induct)
  case Nil
  then show ?case by simp
next
  case (snoc x ms)
  show ?case
  proof (cases "P x")
    case True
    then show ?thesis by (simp add: assms case_snoc_last)
  next
    case False
    with snoc show ?thesis by (simp add: assms)
  qed
qed

lemma owner_owning_module:
  assumes "CHR '':'' \<notin> set t"
  shows "owner entityIndex t i = owning_module entityIndex t i"
proof -
  let ?P = "\<lambda>(moduleId, moduleEntity). t \<in> member_types \<and> lists_id moduleEntity t i"
  have "owner entityIndex t i =
     (case filter ?P (modules entityIndex) of
        [] \<Rightarrow> map_of [] (entity_key t i) | y # zs \<Rightarrow> Some (fst (last (y # zs))))"
    unfolding owner_def buildReverseModuleIndex_def
  proof (rule foldl_last_lookup)
    fix ri :: "(string, string) js_map" and x :: "string \<times> Entity"
    obtain m e where x: "x = (m, e)" by (cases x)
    show "map_of (case x of (moduleId, moduleEntity) \<Rightarrow>
            foldl (\<lambda>reverseIndex entityType.
               foldl (\<lambda>reverseIndex entityId.
                        Map_set reverseIndex (entity_key entityType entityId) moduleId)
                 reverseIndex (or_empty (field moduleEntity entityType)))
              ri ENTITY_TYPES) (entity_key t i)
        = (if ?P x then Some (fst x) else map_of ri (entity_key t i))"
      by (simp add: x reverse_index_module_lookup [OF assms])
  qed
  also have "\<dots> = owning_module entityIndex t i"
  proof (cases "t \<in> member_types")
    case True
    then have "filter ?P (modules entityIndex)
        = filter (\<lambda>(moduleId, moduleEntity). lists_id moduleEntity t i) (modules entityIndex)"
      by (simp add: case_prod_unfold)
    with True show ?thesis by (simp add: owning_module_def split: list.splits)
  next
    case False
    then have "filter ?P (modules entityIndex) = []" by (simp add: case_prod_unfold)
    with False show ?thesis by (simp add: owning_module_def)
  qed
  finally show ?thesis .
qed

lemma module_deps_module_dependencies: "module_deps entityIndex = module_dependencies entityIndex"
  by (auto simp: module_deps_def declared_deps_def module_dependencies_def or_empty_lists_id
      Map_has_def map_of_eq_None_iff)

lemma normalizeToArray_names_target:
  "refId \<in> set (normalizeToArray (field entity fieldName)) \<longleftrightarrow> names_target entity fieldName refId"
  by (auto simp: normalizeToArray_def names_target_def truthy_def
      split: option.splits field_value.splits)

lemma Map_has_target_exists:
  "(\<exists>targetIndex. index_get entityIndex targetType = Some targetIndex \<and> Map_has targetIndex refId)
     \<longleftrightarrow> target_exists entityIndex targetType refId"
  by (auto simp: target_exists_def Map_has_def map_of_eq_None_iff split: option.splits)

lemma declared_fields_table:
  "declared_fields =
     concat (map (\<lambda>(entityType, fieldMap).
                    map (\<lambda>(fieldName, targetType). (entityType, fieldName, targetType)) fieldMap)
               REFERENCE_FIELDS)"
  by (simp add: declared_fields_def REFERENCE_FIELDS_def)

lemma declared_fields_iff:
  "(entityType, fieldName, targetType) \<in> set declared_fields \<longleftrightarrow>
     (\<exists>fieldMap. (entityType, fieldMap) \<in> set REFERENCE_FIELDS \<and> (fieldName, targetType) \<in> set fieldMap)"
  unfolding declared_fields_table by auto

lemma fields_of_table:
  "fields_of ''categories'' = the (map_of REFERENCE_FIELDS ''categories'')"
  "fields_of ''subobjects'' = the (map_of REFERENCE_FIELDS ''subobjects'')"
  "fields_of ''properties'' = the (map_of REFERENCE_FIELDS ''properties'')"
  "fields_of ''modules'' = the (map_of REFERENCE_FIELDS ''modules'')"
  "fields_of ''bundles'' = the (map_of REFERENCE_FIELDS ''bundles'')"
  by (simp_all add: fields_of_def declared_fields_def REFERENCE_FIELDS_def)

lemma refs_of_entity_iff:
  "(entityType', entityId', entity', fieldName, targetType, refId)
       \<in> set (refs_of_entity entityType fieldMap (entityId, entity)) \<longleftrightarrow>
     entityType' = entityType \<and> entityId' = entityId \<and> entity' = entity
     \<and> (fieldName, targetType) \<in> set fieldMap
     \<and> refId \<in> set (normalizeToArray (field entity fieldName))"
  by (auto intro!: bexI [of _ "(fieldName, targetType)"])

lemma refs_of_type_iff:
  "(entityType', entityId, entity, fieldName, targetType, refId)
       \<in> set (refs_of_type entityIndex (entityType, fieldMap)) \<longleftrightarrow>
     entityType' = entityType
     \<and> (case index_get entityIndex entityType of
           None \<Rightarrow> False
         | Some entities \<Rightarrow> (entityId, entity) \<in> set entities)
     \<and> (fieldName, targetType) \<in> set fieldMap
     \<and> refId \<in> set (normalizeToArray (field entity fieldName))"
proof (cases "index_get entityIndex entityType")
  case None
  then show ?thesis by simp
next
  case (Some entities)
  have "(entityType', entityId, entity, fieldName, targetType, refId)
       \<in> set (refs_of_type entityIndex (entityType, fieldMap)) \<longleftrightarrow>
     (\<exists>entry \<in> set entities. (entityType', entityId, entity, fieldName, targetType, refId)
        \<in> set (refs_of_entity entityType fieldMap entry))"
    by (simp add: Some)
  also have "\<dots> \<longleftrightarrow> (\<exists>i e. (i, e) \<in> set entities
       \<and> (entityType', entityId, entity, fieldName, targetType, refId)
        \<in> set (refs_of_entity entityType fieldMap (i, e)))"
    by (simp add: Bex_def)
  also have "\<dots> \<longleftrightarrow> entityType' = entityType \<and> (entityId, entity) \<in> set entities
     \<and> (fieldName, targetType) \<in> set fieldMap
     \<and> refId \<in> set (normalizeToArray (field entity fieldName))"
    unfolding refs_of_entity_iff by blast
  finally show ?thesis by (simp add: Some)
qed

lemma all_references_iff: "r \<in> set (all_references entityIndex) \<longleftrightarrow> is_reference entityIndex r"
proof -
  obtain entityType entityId entity fieldName targetType refId where
    r: "r = (entityType, entityId, entity, fieldName, targetType, refId)" by (cases r)
  have "r \<in> set (all_references entityIndex) \<longleftrightarrow>
     (\<exists>x \<in> set REFERENCE_FIELDS. r \<in> set (refs_of_type entityIndex x))"
    by (simp add: all_references_def)
  also have "\<dots> \<longleftrightarrow> (\<exists>t fieldMap. (t, fieldMap) \<in> set REFERENCE_FIELDS
       \<and> r \<in> set (refs_of_type entityIndex (t, fieldMap)))"
    by (simp add: Bex_def)
  also have "\<dots> \<longleftrightarrow> (\<exists>fieldMap. (entityType, fieldMap) \<in> set REFERENCE_FIELDS
       \<and> (fieldName, targetType) \<in> set fieldMap)
     \<and> (case index_get entityIndex entityType of
           None \<Rightarrow> False
         | Some entities \<Rightarrow> (entityId, entity) \<in> set entities)
     \<and> refId \<in> set (normalizeToArray (field entity fieldName))"
    unfolding r refs_of_type_iff by blast
  also have "\<dots> \<longleftrightarrow> is_reference entityIndex r"
    by (simp add: r is_reference_def declared_fields_iff normalizeToArray_names_target)
  finally show ?thesis .
qed

lemma normalizeToArray_target_ids: "normalizeToArray (field entity fieldName) = target_ids entity fieldName"
  by (simp add: normalizeToArray_def target_ids_def truthy_def split: option.splits field_value.splits)

lemma refs_of_field_eq:
  "refs_of_field entityType entityId entity =
     (\<lambda>(fieldName, targetType).
        map (\<lambda>refId. (entityType, entityId, entity, fieldName, targetType, refId))
          (target_ids entity fieldName))"
  by (rule ext) (auto simp: normalizeToArray_target_ids)

lemma refs_of_entity_eq:
  "refs_of_entity entityType fieldMap =
     (\<lambda>(entityId, entity).
        concat (map (\<lambda>(fieldName, targetType).
           map (\<lambda>refId. (entityType, entityId, entity, fieldName, targetType, refId))
             (target_ids entity fieldName))
          fieldMap))"
  by (rule ext) (auto simp: refs_of_field_eq)

lemma all_references_references: "all_references entityIndex = references entityIndex"
  by (simp add: all_references_def references_def declared_types_def fields_of_table
      REFERENCE_FIELDS_def refs_of_entity_eq)

lemma references_iff: "r \<in> set (references entityIndex) \<longleftrightarrow> is_reference entityIndex r"
  using all_references_iff [of r entityIndex] by (simp add: all_references_references)

subsection \<open>The checks of one reference\<close>

lemma declared_no_colon:
  assumes "(entityType, fieldName, targetType) \<in> set declared_fields"
  shows "CHR '':'' \<notin> set entityType" "CHR '':'' \<notin> set targetType"
  using assms by (auto simp: declared_fields_def REFERENCE_FIELDS_def)

lemma declared_target_index:
  assumes "(entityType, fieldName, targetType) \<in> set declared_fields"
  shows "\<exists>targetIndex. index_get entityIndex targetType = Some targetIndex"
proof -
  from assms obtain fieldMap where
    "(entityType, fieldMap) \<in> set REFERENCE_FIELDS" "(fieldName, targetType) \<in> set fieldMap"
    unfolding declared_fields_iff by blast
  from table_types(2) [OF this] show ?thesis by blast
qed

lemma validate_ref_scope_cases:
  assumes "validate_ref entityIndex ri entityType entityId entity sourceModuleId moduleScope
       fieldName targetType refId [] = Inr out"
    and "\<not> (refId = entityId \<and> targetType = entityType)"
    and "index_get entityIndex targetType = Some targetIndex" "Map_has targetIndex refId"
  shows "out = [] \<or> (\<exists>tgt. map_of ri (entity_key targetType refId) = Some tgt
           \<and> out = [scope_violation_error entity fieldName refId tgt sourceModuleId])"
  using assms by (auto simp: validate_ref_def Let_def split: if_splits option.splits)



lemma emitted_scope_violation:
  assumes ids: "[] \<notin> fst ` set (modules entityIndex)"
    and ref: "is_reference entityIndex (entityType, entityId, entity, fieldName, targetType, refId)"
  shows "((\<exists>e \<in> set (outs_of (emitted entityIndex
                (entityType, entityId, entity, fieldName, targetType, refId))).
             err_type e = ''scope-violation'') \<longleftrightarrow>
           entityType \<in> member_types \<and> targetType \<noteq> ''modules''
           \<and> (\<exists>src tgt.
                 owning_module entityIndex entityType entityId = Some src
                 \<and> \<not> (\<exists>x. (src, x) \<in> (module_dependencies entityIndex)\<^sup>*
                         \<and> (x, x) \<in> (module_dependencies entityIndex)\<^sup>+)
                 \<and> target_exists entityIndex targetType refId
                 \<and> owning_module entityIndex targetType refId = Some tgt
                 \<and> (src, tgt) \<notin> (module_dependencies entityIndex)\<^sup>*))
     \<and> (\<forall>e \<in> set (outs_of (emitted entityIndex
                (entityType, entityId, entity, fieldName, targetType, refId))).
           err_type e = ''scope-violation'' \<longrightarrow>
           (\<exists>src tgt. owning_module entityIndex entityType entityId = Some src
              \<and> owning_module entityIndex targetType refId = Some tgt
              \<and> e = scope_violation_error entity fieldName refId tgt (Some src)))"
proof -
  let ?D = "module_dependencies entityIndex"
  let ?r = "(entityType, entityId, entity, fieldName, targetType, refId)"
  note D = module_deps_module_dependencies [of entityIndex]
  obtain g where g: "buildModuleDependencyGraph entityIndex = Inr g" by (rule built_graph)
  from source_scope_cases [OF g, of entityType entityId] obtain sc where
    sc: "source_scope g (owner entityIndex entityType entityId) entityType = Inr sc" by blast
  note e = emitted_eq [OF g sc]
  from ref have decl: "(entityType, fieldName, targetType) \<in> set declared_fields"
    by (simp add: is_reference_def)
  note os = owner_owning_module [OF declared_no_colon(1) [OF decl], of entityIndex]
  note ot = owner_owning_module [OF declared_no_colon(2) [OF decl], of entityIndex]
  from declared_target_index [OF decl] obtain targetIndex where
    ti: "index_get entityIndex targetType = Some targetIndex" by blast
  then have te: "target_exists entityIndex targetType refId \<longleftrightarrow> Map_has targetIndex refId"
    by (simp add: target_exists_def Map_has_def map_of_eq_None_iff)
  from validate_ref_total [of entityIndex targetType] ti obtain out where
    v: "validate_ref entityIndex (buildReverseModuleIndex entityIndex) entityType entityId
      entity (owner entityIndex entityType entityId) sc fieldName targetType refId [] = Inr out"
    by fastforce
  then have out: "outs_of (emitted entityIndex ?r) = out"
    by (simp add: e outs_of_def)
  note A = validate_ref_scope_violation [OF v]
  note B1 = source_scope_Some_iff(1) [OF g ids sc, unfolded D os scopeCheckTypes_member_types]
  note B2 = source_scope_Some_iff(2) [OF g ids sc, unfolded D os scopeCheckTypes_member_types]
  have tgt_truthy: "truthy tgt" if "owner entityIndex targetType refId = Some tgt" for tgt
  proof -
    from owner_is_module [OF that] ids have "tgt \<noteq> []" by metis
    then show ?thesis by (simp add: truthy_def)
  qed
  have iff: "(\<exists>e \<in> set out. err_type e = ''scope-violation'') \<longleftrightarrow>
      entityType \<in> member_types \<and> targetType \<noteq> ''modules''
      \<and> (\<exists>src tgt.
            owning_module entityIndex entityType entityId = Some src
            \<and> \<not> (\<exists>x. (src, x) \<in> ?D\<^sup>* \<and> (x, x) \<in> ?D\<^sup>+)
            \<and> target_exists entityIndex targetType refId
            \<and> owning_module entityIndex targetType refId = Some tgt
            \<and> (src, tgt) \<notin> ?D\<^sup>*)" (is "?L \<longleftrightarrow> ?R")
  proof
    assume ?L
    with A obtain scope tgt targetIndex' where
      ns: "\<not> (refId = entityId \<and> targetType = entityType)"
      and ti': "index_get entityIndex targetType = Some targetIndex'" "Map_has targetIndex' refId"
      and s: "sc = Some scope" and t: "entityType \<in> set scopeCheckTypes" "targetType \<noteq> ''modules''"
      and tg: "owner entityIndex targetType refId = Some tgt" "tgt \<notin> set scope"
      unfolding owner_def by blast
    from ti ti' te have ex: "target_exists entityIndex targetType refId" by simp
    from B1 [of scope] s obtain src where
      src: "owning_module entityIndex entityType entityId = Some src"
      and nc: "\<not> (\<exists>x. (src, x) \<in> ?D\<^sup>* \<and> (x, x) \<in> ?D\<^sup>+)"
      and ss: "set scope = ?D\<^sup>* `` {src}"
      by blast
    from tg(2) ss have "(src, tgt) \<notin> ?D\<^sup>*" by blast
    with t src nc ex tg(1) show ?R
      unfolding ot scopeCheckTypes_member_types by blast
  next
    assume ?R
    then obtain src tgt where
      t: "entityType \<in> member_types" "targetType \<noteq> ''modules''"
      and src: "owning_module entityIndex entityType entityId = Some src"
      and nc: "\<not> (\<exists>x. (src, x) \<in> ?D\<^sup>* \<and> (x, x) \<in> ?D\<^sup>+)"
      and ex: "target_exists entityIndex targetType refId"
      and tg: "owning_module entityIndex targetType refId = Some tgt" "(src, tgt) \<notin> ?D\<^sup>*"
      by blast
    from ex te have mh: "Map_has targetIndex refId" by simp
    from B2 [OF src t(1) nc] obtain scope where s: "sc = Some scope" and ss: "set scope = ?D\<^sup>* `` {src}"
      by blast
    from tg(2) ss have notin: "tgt \<notin> set scope" by blast
    have ns: "\<not> (refId = entityId \<and> targetType = entityType)"
    proof
      assume "refId = entityId \<and> targetType = entityType"
      with src tg(1) have "tgt = src" by simp
      with tg(2) show False by simp
    qed
    from tg(1) have tg': "owner entityIndex targetType refId = Some tgt" by (simp add: ot)
    from t(1) have t': "entityType \<in> set scopeCheckTypes" by (simp add: scopeCheckTypes_member_types)
    from ns ti mh s t' t(2) tg' tgt_truthy [OF tg'] notin
    have "\<not> (refId = entityId \<and> targetType = entityType)
      \<and> (\<exists>targetIndex. index_get entityIndex targetType = Some targetIndex \<and> Map_has targetIndex refId)
      \<and> (\<exists>scope tgt. sc = Some scope \<and> entityType \<in> set scopeCheckTypes
            \<and> targetType \<noteq> ''modules''
            \<and> map_of (buildReverseModuleIndex entityIndex) (entity_key targetType refId) = Some tgt
            \<and> truthy tgt \<and> tgt \<notin> set scope)"
      unfolding owner_def by blast
    with A show ?L by blast
  qed
  have named: "\<exists>src tgt. owning_module entityIndex entityType entityId = Some src
              \<and> owning_module entityIndex targetType refId = Some tgt
              \<and> e = scope_violation_error entity fieldName refId tgt (Some src)"
    if e: "e \<in> set out" "err_type e = ''scope-violation''" for e
  proof -
    from e have L: "\<exists>e \<in> set out. err_type e = ''scope-violation''" by blast
    with A obtain targetIndex' where
      ns: "\<not> (refId = entityId \<and> targetType = entityType)"
      and ti': "index_get entityIndex targetType = Some targetIndex'" "Map_has targetIndex' refId"
      by blast
    from L iff obtain src where src: "owning_module entityIndex entityType entityId = Some src"
      by blast
    from validate_ref_scope_cases [OF v ns ti'] e(1) obtain tgt where
      "owner entityIndex targetType refId = Some tgt"
      "e = scope_violation_error entity fieldName refId tgt (owner entityIndex entityType entityId)"
      unfolding owner_def by auto
    with src show ?thesis by (simp add: os ot)
  qed
  from iff named show ?thesis unfolding out by blast
qed

lemma list_all2_in_set1:
  assumes "list_all2 P xs ys" "x \<in> set xs"
  shows "\<exists>y \<in> set ys. P x y"
  using assms by (induction rule: list_all2_induct) auto

lemma list_all2_results:
  assumes "\<And>x. x \<in> set xs \<Longrightarrow> P x (f x)"
  shows "list_all2 P xs (map f xs)"
  using assms by (simp add: list_all2_map2 list_all2_same)

subsection \<open>The example index\<close>

lemma validator_index_result:
  "validateReferences (validator_index []) =
     Inr ([self_reference_error agent_entity ''parents'' ''Agent'',
           missing_reference_error agent_entity ''required_properties'' ''Ghost'' ''properties'',
           scope_violation_error agent_entity ''required_properties'' ''Mass'' ''Lab'' (Some ''Core'')],
          [])"
  by code_simp

lemma validator_index_Lab_result:
  "validateReferences (validator_index [''Lab'']) =
     Inr ([self_reference_error agent_entity ''parents'' ''Agent'',
           missing_reference_error agent_entity ''required_properties'' ''Ghost'' ''properties''],
          [])"
  by code_simp

lemma validator_index_dependencies_none: "module_dependencies (validator_index []) = {}"
  by (auto simp: module_dependencies_def validator_index_def lists_id_def field_def)

lemma validator_index_dependencies_Lab:
  "(''Core'', ''Lab'') \<in> module_dependencies (validator_index [''Lab''])"
  by (auto simp: module_dependencies_def validator_index_def lists_id_def field_def)

subsection \<open>The validator as a whole\<close>

text \<open>
  C10. \<open>validateReferences\<close> always returns normally, and the warnings it returns
  are the empty list.
\<close>

theorem validateReferences_no_warnings:
  "\<exists>errors. validateReferences entityIndex = Inr (errors, [])"
  using validateReferences_collect [of entityIndex] by blast



text \<open>
  C4. In an index whose module ids are not empty (\<open>buildEntityIndex\<close> skips an
  entity without an id, and an empty id is falsy), \<open>validateReferences\<close> returns
  the errors of the references of the index, one list for each reference and none left
  out, and the list of a reference holds a \<open>scope-violation\<close> error exactly when the source type is
  one of categories, properties, subobjects, templates; the target type is not
  modules; the source entity has an owning module from which no dependency cycle
  can be reached; the target exists and has an owning module; and the target's module
  is neither the source's module nor one of its transitive dependencies. Such an
  error names the two modules.
\<close>

theorem validateReferences_scope_violation_iff:
  assumes "[] \<notin> fst ` set (modules entityIndex)"
  shows "(\<forall>reference. reference \<in> set (references entityIndex) \<longleftrightarrow> is_reference entityIndex reference)
   \<and> (\<exists>outs.
      validateReferences entityIndex = Inr (concat outs, [])
      \<and> list_all2
           (\<lambda>(entityType, entityId, entity, fieldName, targetType, refId) out.
              ((\<exists>e \<in> set out. err_type e = ''scope-violation'') \<longleftrightarrow>
                 entityType \<in> member_types \<and> targetType \<noteq> ''modules''
                 \<and> (\<exists>src tgt.
                       owning_module entityIndex entityType entityId = Some src
                       \<and> \<not> (\<exists>x. (src, x) \<in> (module_dependencies entityIndex)\<^sup>*
                               \<and> (x, x) \<in> (module_dependencies entityIndex)\<^sup>+)
                       \<and> target_exists entityIndex targetType refId
                       \<and> owning_module entityIndex targetType refId = Some tgt
                       \<and> (src, tgt) \<notin> (module_dependencies entityIndex)\<^sup>*))
              \<and> (\<forall>e \<in> set out. err_type e = ''scope-violation'' \<longrightarrow>
                    (\<exists>src tgt. owning_module entityIndex entityType entityId = Some src
                       \<and> owning_module entityIndex targetType refId = Some tgt
                       \<and> e = scope_violation_error entity fieldName refId tgt (Some src))))
           (references entityIndex) outs)"
proof (intro exI conjI)
  let ?refs = "references entityIndex"
  let ?f = "\<lambda>r. outs_of (emitted entityIndex r)"
  show "\<forall>reference. reference \<in> set ?refs \<longleftrightarrow> is_reference entityIndex reference"
    by (simp add: references_iff)
  show "validateReferences entityIndex = Inr (concat (map ?f ?refs), [])"
    using validateReferences_collect [of entityIndex] by (simp add: all_references_references)
  show "list_all2
           (\<lambda>(entityType, entityId, entity, fieldName, targetType, refId) out.
              ((\<exists>e \<in> set out. err_type e = ''scope-violation'') \<longleftrightarrow>
                 entityType \<in> member_types \<and> targetType \<noteq> ''modules''
                 \<and> (\<exists>src tgt.
                       owning_module entityIndex entityType entityId = Some src
                       \<and> \<not> (\<exists>x. (src, x) \<in> (module_dependencies entityIndex)\<^sup>*
                               \<and> (x, x) \<in> (module_dependencies entityIndex)\<^sup>+)
                       \<and> target_exists entityIndex targetType refId
                       \<and> owning_module entityIndex targetType refId = Some tgt
                       \<and> (src, tgt) \<notin> (module_dependencies entityIndex)\<^sup>*))
              \<and> (\<forall>e \<in> set out. err_type e = ''scope-violation'' \<longrightarrow>
                    (\<exists>src tgt. owning_module entityIndex entityType entityId = Some src
                       \<and> owning_module entityIndex targetType refId = Some tgt
                       \<and> e = scope_violation_error entity fieldName refId tgt (Some src))))
           ?refs (map ?f ?refs)"
  proof (rule list_all2_results)
    fix r assume "r \<in> set ?refs"
    then have ref: "is_reference entityIndex r" by (simp add: references_iff)
    obtain entityType entityId entity fieldName targetType refId where
      r: "r = (entityType, entityId, entity, fieldName, targetType, refId)" by (cases r)
    from emitted_scope_violation [OF assms ref [unfolded r]]
    show "(case r of (entityType, entityId, entity, fieldName, targetType, refId) \<Rightarrow> \<lambda>out.
              ((\<exists>e \<in> set out. err_type e = ''scope-violation'') \<longleftrightarrow>
                 entityType \<in> member_types \<and> targetType \<noteq> ''modules''
                 \<and> (\<exists>src tgt.
                       owning_module entityIndex entityType entityId = Some src
                       \<and> \<not> (\<exists>x. (src, x) \<in> (module_dependencies entityIndex)\<^sup>*
                               \<and> (x, x) \<in> (module_dependencies entityIndex)\<^sup>+)
                       \<and> target_exists entityIndex targetType refId
                       \<and> owning_module entityIndex targetType refId = Some tgt
                       \<and> (src, tgt) \<notin> (module_dependencies entityIndex)\<^sup>*))
              \<and> (\<forall>e \<in> set out. err_type e = ''scope-violation'' \<longrightarrow>
                    (\<exists>src tgt. owning_module entityIndex entityType entityId = Some src
                       \<and> owning_module entityIndex targetType refId = Some tgt
                       \<and> e = scope_violation_error entity fieldName refId tgt (Some src))))
           (?f r)"
      unfolding r prod.case .
  qed
qed

theorem validateReferences_scope_violation_iff_witness:
  "[] \<notin> fst ` set (modules (validator_index []))
   \<and> is_reference (validator_index [])
       (''categories'', ''Agent'', agent_entity, ''required_properties'', ''properties'', ''Mass'')
   \<and> owning_module (validator_index []) ''categories'' ''Agent'' = Some ''Core''
   \<and> owning_module (validator_index []) ''properties'' ''Mass'' = Some ''Lab''
   \<and> module_dependencies (validator_index []) = {}
   \<and> target_exists (validator_index []) ''properties'' ''Mass''
   \<and> (\<exists>errors. validateReferences (validator_index []) = Inr (errors, [])
         \<and> scope_violation_error agent_entity ''required_properties'' ''Mass'' ''Lab'' (Some ''Core'')
              \<in> set errors)
   \<and> validateReferences (validator_index []) =
       Inr ([self_reference_error agent_entity ''parents'' ''Agent'',
             missing_reference_error agent_entity ''required_properties'' ''Ghost'' ''properties'',
             scope_violation_error agent_entity ''required_properties'' ''Mass'' ''Lab''
               (Some ''Core'')],
            [])
   \<and> (''Core'', ''Lab'') \<in> module_dependencies (validator_index [''Lab''])
   \<and> validateReferences (validator_index [''Lab'']) =
       Inr ([self_reference_error agent_entity ''parents'' ''Agent'',
             missing_reference_error agent_entity ''required_properties'' ''Ghost'' ''properties''],
            [])"
proof -
  let ?I = "validator_index []"
  let ?D = "module_dependencies (validator_index [])"
  let ?r = "(''categories'', ''Agent'', agent_entity, ''required_properties'', ''properties'', ''Mass'')"
  have ids: "[] \<notin> fst ` set (modules ?I)"
    by (simp add: validator_index_def)
  have ref: "is_reference ?I ?r"
    by (simp add: is_reference_def declared_fields_def REFERENCE_FIELDS_def index_get_def
        validator_index_def names_target_def field_def agent_entity_def)
  have src: "owning_module ?I ''categories'' ''Agent'' = Some ''Core''"
    by (simp add: owning_module_def member_types_def validator_index_def lists_id_def field_def)
  have tgt: "owning_module ?I ''properties'' ''Mass'' = Some ''Lab''"
    by (simp add: owning_module_def member_types_def validator_index_def lists_id_def field_def)
  have ex: "target_exists ?I ''properties'' ''Mass''"
    by (simp add: target_exists_def index_get_def validator_index_def)
  have ty: "''categories'' \<in> member_types" "''properties'' \<noteq> ''modules''"
    by (simp_all add: member_types_def)
  note none = validator_index_dependencies_none
  have no: "(''Core'', ''Lab'') \<notin> ?D\<^sup>*" "\<not> (\<exists>x. (''Core'', x) \<in> ?D\<^sup>* \<and> (x, x) \<in> ?D\<^sup>+)"
    by (simp_all add: none)
  from validateReferences_scope_violation_iff [OF ids] obtain outs where
    refs: "\<forall>reference. reference \<in> set (references ?I) \<longleftrightarrow> is_reference ?I reference"
    and res: "validateReferences ?I = Inr (concat outs, [])"
    and all: "list_all2
           (\<lambda>(entityType, entityId, entity, fieldName, targetType, refId) out.
              ((\<exists>e \<in> set out. err_type e = ''scope-violation'') \<longleftrightarrow>
                 entityType \<in> member_types \<and> targetType \<noteq> ''modules''
                 \<and> (\<exists>src tgt.
                       owning_module ?I entityType entityId = Some src
                       \<and> \<not> (\<exists>x. (src, x) \<in> ?D\<^sup>* \<and> (x, x) \<in> ?D\<^sup>+)
                       \<and> target_exists ?I targetType refId
                       \<and> owning_module ?I targetType refId = Some tgt
                       \<and> (src, tgt) \<notin> ?D\<^sup>*))
              \<and> (\<forall>e \<in> set out. err_type e = ''scope-violation'' \<longrightarrow>
                    (\<exists>src tgt. owning_module ?I entityType entityId = Some src
                       \<and> owning_module ?I targetType refId = Some tgt
                       \<and> e = scope_violation_error entity fieldName refId tgt (Some src))))
           (references ?I) outs"
    by (elim exE conjE)
  from refs ref have "?r \<in> set (references ?I)" by blast
  from list_all2_in_set1 [OF all this] obtain out where
    out: "out \<in> set outs"
    and iff: "(\<exists>e \<in> set out. err_type e = ''scope-violation'') \<longleftrightarrow>
                 ''categories'' \<in> member_types \<and> ''properties'' \<noteq> ''modules''
                 \<and> (\<exists>src tgt.
                       owning_module ?I ''categories'' ''Agent'' = Some src
                       \<and> \<not> (\<exists>x. (src, x) \<in> ?D\<^sup>* \<and> (x, x) \<in> ?D\<^sup>+)
                       \<and> target_exists ?I ''properties'' ''Mass''
                       \<and> owning_module ?I ''properties'' ''Mass'' = Some tgt
                       \<and> (src, tgt) \<notin> ?D\<^sup>*)"
    and named: "\<forall>e \<in> set out. err_type e = ''scope-violation'' \<longrightarrow>
                    (\<exists>src tgt. owning_module ?I ''categories'' ''Agent'' = Some src
                       \<and> owning_module ?I ''properties'' ''Mass'' = Some tgt
                       \<and> e = scope_violation_error agent_entity ''required_properties'' ''Mass''
                             tgt (Some src))"
    unfolding prod.case by (elim bexE conjE)
  have "\<exists>src tgt.
           owning_module ?I ''categories'' ''Agent'' = Some src
           \<and> \<not> (\<exists>x. (src, x) \<in> ?D\<^sup>* \<and> (x, x) \<in> ?D\<^sup>+)
           \<and> target_exists ?I ''properties'' ''Mass''
           \<and> owning_module ?I ''properties'' ''Mass'' = Some tgt
           \<and> (src, tgt) \<notin> ?D\<^sup>*"
  proof (intro exI conjI)
    show "owning_module ?I ''categories'' ''Agent'' = Some ''Core''" by (rule src)
    show "\<not> (\<exists>x. (''Core'', x) \<in> ?D\<^sup>* \<and> (x, x) \<in> ?D\<^sup>+)" by (rule no(2))
    show "target_exists ?I ''properties'' ''Mass''" by (rule ex)
    show "owning_module ?I ''properties'' ''Mass'' = Some ''Lab''" by (rule tgt)
    show "(''Core'', ''Lab'') \<notin> ?D\<^sup>*" by (rule no(1))
  qed
  with iff ty obtain e where e: "e \<in> set out" "err_type e = ''scope-violation''" by blast
  with named src tgt
  have "e = scope_violation_error agent_entity ''required_properties'' ''Mass'' ''Lab'' (Some ''Core'')"
    by auto
  with e(1) out
  have "scope_violation_error agent_entity ''required_properties'' ''Mass'' ''Lab'' (Some ''Core'')
      \<in> set (concat outs)"
    by auto
  with res have a: "\<exists>errors. validateReferences ?I = Inr (errors, [])
         \<and> scope_violation_error agent_entity ''required_properties'' ''Mass'' ''Lab'' (Some ''Core'')
              \<in> set errors"
    by blast
  from ids ref src tgt none ex a validator_index_result validator_index_dependencies_Lab
    validator_index_Lab_result
  show ?thesis by (intro conjI)
qed

end
